theory Spec2Isabelle
  imports Complex_Main
begin

section \<open>Strings and characters\<close>

text \<open>
  A Python \<open>str\<close> is a sequence of code points. It is modelled by \<open>string\<close>, each
  \<open>char\<close> standing for the code point of that number, so the documents covered are those
  over the code points 0 to 255. The character classes below are the ones CPython uses for
  \<open>str.isspace\<close>, \<open>str.lower\<close> and for the escapes \<open>\s\<close>, \<open>\d\<close>, \<open>\w\<close> of a \<open>str\<close> pattern,
  cut down to that range.
\<close>

definition code_point :: "char \<Rightarrow> int" where
  "code_point c = of_char c"

definition is_space :: "char \<Rightarrow> bool" where
  "is_space c = (let n = code_point c in
     (9 \<le> n \<and> n \<le> 13) \<or> (28 \<le> n \<and> n \<le> 32) \<or> n = 133 \<or> n = 160)"

definition is_digit :: "char \<Rightarrow> bool" where
  "is_digit c = (let n = code_point c in 48 \<le> n \<and> n \<le> 57)"

definition is_word :: "char \<Rightarrow> bool" where
  "is_word c = (let n = code_point c in
     (48 \<le> n \<and> n \<le> 57) \<or> (65 \<le> n \<and> n \<le> 90) \<or> n = 95 \<or> (97 \<le> n \<and> n \<le> 122) \<or>
     n = 170 \<or> n = 178 \<or> n = 179 \<or> n = 181 \<or> n = 185 \<or> n = 186 \<or>
     (188 \<le> n \<and> n \<le> 190) \<or> (192 \<le> n \<and> n \<le> 214) \<or> (216 \<le> n \<and> n \<le> 246) \<or>
     248 \<le> n)"

definition lower_char :: "char \<Rightarrow> char" where
  "lower_char c = (let n = code_point c in
     if (65 \<le> n \<and> n \<le> 90) \<or> (192 \<le> n \<and> n \<le> 214) \<or> (216 \<le> n \<and> n \<le> 222)
     then char_of (n + 32) else c)"

text \<open>\<open>s.lower()\<close>, \<open>s.strip()\<close> and the slice \<open>s[a:b]\<close> for \<open>0 \<le> a\<close>, \<open>0 \<le> b\<close>.\<close>

definition lower :: "string \<Rightarrow> string" where
  "lower s = map lower_char s"

definition strip :: "string \<Rightarrow> string" where
  "strip s = rev (dropWhile is_space (rev (dropWhile is_space s)))"

definition slice :: "string \<Rightarrow> nat \<Rightarrow> nat \<Rightarrow> string" where
  "slice s a b = take (b - a) (drop a s)"

text \<open>\<open>needle in hay\<close> on strings.\<close>

primrec starts_with :: "string \<Rightarrow> string \<Rightarrow> bool" where
  "starts_with [] t = True"
| "starts_with (c # w) t = (case t of [] \<Rightarrow> False | d # t' \<Rightarrow> c = d \<and> starts_with w t')"

primrec contains :: "string \<Rightarrow> string \<Rightarrow> bool" where
  "contains w [] = (w = [])"
| "contains w (d # t) = (starts_with w (d # t) \<or> contains w t)"

section \<open>Regular expressions of the \<open>re\<close> module\<close>

text \<open>
  The patterns of the source use literals, the classes \<open>\s\<close>, \<open>\d\<close> and bracket sets,
  greedy \<open>*\<close>, \<open>+\<close> on one class, \<open>?\<close>, alternation, \<open>\b\<close> and \<open>$\<close>. A pattern is a value of
  \<open>regex\<close>. The matcher works at a position of the subject string, given by the character
  before the position (\<open>None\<close> at the start) and the rest of the string from the position
  on. \<open>rmatch ic r prev rest\<close> lists the matches of \<open>r\<close> there, each as the pair of the text
  matched and the text left, in the order in which the backtracking matcher of \<open>re\<close> tries
  them: the head of the list is the match \<open>re\<close> reports. \<open>ic\<close> is the flag \<open>re.IGNORECASE\<close>.
\<close>

datatype item = Ch char | Space | Digit

datatype regex =
    Lit string
  | Cls "item list"
  | Star "item list"
  | Plus "item list"
  | Opt regex
  | Seq regex regex
  | Alt regex regex
  | WordB
  | Eol

fun item_ok :: "bool \<Rightarrow> item \<Rightarrow> char \<Rightarrow> bool" where
  "item_ok ic (Ch c) d = (if ic then lower_char d = lower_char c else d = c)"
| "item_ok ic Space d = is_space d"
| "item_ok ic Digit d = is_digit d"

primrec cls_ok :: "bool \<Rightarrow> item list \<Rightarrow> char \<Rightarrow> bool" where
  "cls_ok ic [] d = False"
| "cls_ok ic (it # its) d = (item_ok ic it d \<or> cls_ok ic its d)"

text \<open>A literal word at the start of \<open>rest\<close>: the text it matches and the text left.\<close>

fun lit_match :: "bool \<Rightarrow> string \<Rightarrow> string \<Rightarrow> (string \<times> string) option" where
  "lit_match ic [] rest = Some ([], rest)"
| "lit_match ic (c # w) [] = None"
| "lit_match ic (c # w) (d # t) =
     (if item_ok ic (Ch c) d
      then (case lit_match ic w t of None \<Rightarrow> None | Some (m, r) \<Rightarrow> Some (d # m, r))
      else None)"

text \<open>
  A greedy repetition of one class: every way to cut a run of characters of the class off
  the start of \<open>rest\<close>, the longest first.
\<close>

fun greedy :: "(char \<Rightarrow> bool) \<Rightarrow> string \<Rightarrow> (string \<times> string) list" where
  "greedy ok [] = [([], [])]"
| "greedy ok (d # t) =
     (if ok d then map (\<lambda>(m, r). (d # m, r)) (greedy ok t) else []) @ [([], d # t)]"

text \<open>\<open>\b\<close>: exactly one of the characters before and after the position is a word character.\<close>

definition word_boundary :: "char option \<Rightarrow> string \<Rightarrow> bool" where
  "word_boundary prev rest =
     ((case prev of None \<Rightarrow> False | Some c \<Rightarrow> is_word c) \<noteq>
      (case rest of [] \<Rightarrow> False | d # t \<Rightarrow> is_word d))"

text \<open>\<open>$\<close> without \<open>re.MULTILINE\<close>: the end of the string, or just before a final newline.\<close>

definition at_end :: "string \<Rightarrow> bool" where
  "at_end rest = (rest = [] \<or> rest = [CHR 0x0A])"

text \<open>The character before the position reached after the text \<open>m\<close> was matched.\<close>

definition after :: "char option \<Rightarrow> string \<Rightarrow> char option" where
  "after prev m = (if m = [] then prev else Some (last m))"

fun rmatch :: "bool \<Rightarrow> regex \<Rightarrow> char option \<Rightarrow> string \<Rightarrow> (string \<times> string) list" where
  "rmatch ic (Lit w) prev rest = (case lit_match ic w rest of None \<Rightarrow> [] | Some mr \<Rightarrow> [mr])"
| "rmatch ic (Cls its) prev rest =
     (case rest of [] \<Rightarrow> [] | d # t \<Rightarrow> if cls_ok ic its d then [([d], t)] else [])"
| "rmatch ic (Star its) prev rest = greedy (cls_ok ic its) rest"
| "rmatch ic (Plus its) prev rest = filter (\<lambda>(m, r). m \<noteq> []) (greedy (cls_ok ic its) rest)"
| "rmatch ic (Opt r) prev rest = rmatch ic r prev rest @ [([], rest)]"
| "rmatch ic (Seq a b) prev rest =
     concat (map (\<lambda>(m1, r1). map (\<lambda>(m2, r2). (m1 @ m2, r2)) (rmatch ic b (after prev m1) r1))
                 (rmatch ic a prev rest))"
| "rmatch ic (Alt a b) prev rest = rmatch ic a prev rest @ rmatch ic b prev rest"
| "rmatch ic WordB prev rest = (if word_boundary prev rest then [([], rest)] else [])"
| "rmatch ic Eol prev rest = (if at_end rest then [([], rest)] else [])"

text \<open>
  \<open>re.search\<close>: the leftmost position with a match; the result is \<open>match.start()\<close> and the
  text matched.
\<close>

fun search_from :: "bool \<Rightarrow> regex \<Rightarrow> char option \<Rightarrow> string \<Rightarrow> nat \<Rightarrow> (nat \<times> string) option" where
  "search_from ic r prev rest pos =
     (case rmatch ic r prev rest of
        (m, left) # _ \<Rightarrow> Some (pos, m)
      | [] \<Rightarrow> (case rest of
                 [] \<Rightarrow> None
               | d # t \<Rightarrow> search_from ic r (Some d) t (Suc pos)))"

definition re_search :: "bool \<Rightarrow> regex \<Rightarrow> string \<Rightarrow> (nat \<times> string) option" where
  "re_search ic r s = search_from ic r None s 0"

text \<open>
  A pattern with one capturing group is written as the triple of what precedes the group,
  the group, and what follows it; a pattern with no group has the whole pattern as its
  group. \<open>gmatch\<close> lists the matches at a position as (text of the group, text of the whole
  match, text left), again in backtracking order.
\<close>

type_synonym gpattern = "regex \<times> regex \<times> regex"

definition whole :: "regex \<Rightarrow> gpattern" where
  "whole r = (Lit [], r, Lit [])"

fun gmatch :: "bool \<Rightarrow> gpattern \<Rightarrow> char option \<Rightarrow> string \<Rightarrow> (string \<times> string \<times> string) list" where
  "gmatch ic (pre, grp, post) prev rest =
     concat (map (\<lambda>(m1, r1).
       concat (map (\<lambda>(g, r2).
         map (\<lambda>(m3, r3). (g, m1 @ g @ m3, r3))
             (rmatch ic post (after (after prev m1) g) r2))
         (rmatch ic grp (after prev m1) r1)))
       (rmatch ic pre prev rest))"

text \<open>
  The scan shared by \<open>re.findall\<close>, \<open>re.sub\<close> and \<open>re.split\<close>: the non-overlapping matches
  from left to right. The result is the list of the matches, each as (text between the
  previous match and this one, text of the group, text of the match), and the text after
  the last match. After a match the scan goes on at its end. None of the patterns of the
  source matches the empty string; after an empty match the scan here moves one character
  on.
\<close>

fun push :: "char \<Rightarrow> (string \<times> string \<times> string) list \<times> string \<Rightarrow> (string \<times> string \<times> string) list \<times> string" where
  "push d ([], tail) = ([], d # tail)"
| "push d ((gap, g, m) # ms, tail) = ((d # gap, g, m) # ms, tail)"

lemma lit_match_append: "lit_match ic w rest = Some (m, r) \<Longrightarrow> rest = m @ r"
  by (induction ic w rest arbitrary: m r rule: lit_match.induct)
     (auto split: if_splits option.splits)

lemma greedy_append: "(m, r) \<in> set (greedy ok rest) \<Longrightarrow> rest = m @ r"
  by (induction rest arbitrary: m r) (auto split: if_splits)

lemma rmatch_append: "(m, r) \<in> set (rmatch ic re prev rest) \<Longrightarrow> rest = m @ r"
proof (induction re arbitrary: prev rest m r)
  case (Lit w)
  then show ?case by (auto split: option.splits dest: lit_match_append [OF sym])
next
  case (Cls its)
  then show ?case by (auto split: list.splits if_splits)
next
  case (Star its)
  then show ?case by (auto dest: greedy_append)
next
  case (Plus its)
  then show ?case by (auto dest: greedy_append)
next
  case (Opt re)
  then show ?case by auto
next
  case (Seq a b)
  from Seq.prems obtain m1 r1 m2 where
    a: "(m1, r1) \<in> set (rmatch ic a prev rest)" and
    b: "(m2, r) \<in> set (rmatch ic b (after prev m1) r1)" and m: "m = m1 @ m2"
    by auto
  from Seq.IH(1) [OF a] Seq.IH(2) [OF b] m show ?case by simp
next
  case (Alt a b)
  then show ?case by auto
next
  case WordB
  then show ?case by (auto split: if_splits)
next
  case Eol
  then show ?case by (auto split: if_splits)
qed

lemma gmatch_append: "(g, m, r) \<in> set (gmatch ic p prev rest) \<Longrightarrow> rest = m @ r"
  by (cases p) (auto dest!: rmatch_append)

function finditer_from ::
  "bool \<Rightarrow> gpattern \<Rightarrow> char option \<Rightarrow> string \<Rightarrow> (string \<times> string \<times> string) list \<times> string" where
  "finditer_from ic p prev rest =
     (case gmatch ic p prev rest of
        [] \<Rightarrow> (case rest of
                 [] \<Rightarrow> ([], [])
               | d # t \<Rightarrow> push d (finditer_from ic p (Some d) t))
      | (g, m, left) # _ \<Rightarrow>
          (if m = []
           then (case rest of
                   [] \<Rightarrow> ([([], g, m)], [])
                 | d # t \<Rightarrow>
                     (case push d (finditer_from ic p (Some d) t) of
                        (ms, tail) \<Rightarrow> (([], g, m) # ms, tail)))
           else (case finditer_from ic p (Some (last m)) left of
                   (ms, tail) \<Rightarrow> (([], g, m) # ms, tail))))"
  by pat_completeness auto
termination
proof (relation "measure (\<lambda>(ic, p, prev, rest). length rest)")
  fix ic :: bool and p :: gpattern and prev :: "char option" and rest :: string
    and x21 :: "string \<times> string \<times> string" and x22 g y m left
  assume "gmatch ic p prev rest = x21 # x22" "(g, y) = x21" "(m, left) = y" "m \<noteq> []"
  then have "(g, m, left) \<in> set (gmatch ic p prev rest)" by auto
  from gmatch_append [OF this] \<open>m \<noteq> []\<close>
  show "((ic, p, Some (last m), left), ic, p, prev, rest)
          \<in> measure (\<lambda>(ic, p, prev, rest). length rest)"
    by auto
qed auto

definition finditer :: "bool \<Rightarrow> gpattern \<Rightarrow> string \<Rightarrow> (string \<times> string \<times> string) list \<times> string" where
  "finditer ic p s = finditer_from ic p None s"

text \<open>\<open>re.findall\<close> for a pattern with one group: the text of the group of each match.\<close>

definition re_findall :: "gpattern \<Rightarrow> string \<Rightarrow> string list" where
  "re_findall p s = map (\<lambda>(gap, g, m). g) (fst (finditer False p s))"

text \<open>\<open>re.sub(pattern, repl, s)\<close> for a replacement without group references.\<close>

definition re_sub :: "regex \<Rightarrow> string \<Rightarrow> string \<Rightarrow> string" where
  "re_sub r repl s =
     (case finditer False (whole r) s of
        (ms, tail) \<Rightarrow> concat (map (\<lambda>(gap, g, m). gap @ repl) ms) @ tail)"

text \<open>
  \<open>re.split\<close>: the pieces between the matches; when the pattern has a group, the text of
  the group of each match is put between the pieces.
\<close>

definition re_split :: "regex \<Rightarrow> string \<Rightarrow> string list" where
  "re_split r s =
     (case finditer False (whole r) s of
        (ms, tail) \<Rightarrow> map (\<lambda>(gap, g, m). gap) ms @ [tail])"

definition re_split_group :: "gpattern \<Rightarrow> string \<Rightarrow> string list" where
  "re_split_group p s =
     (case finditer False p s of
        (ms, tail) \<Rightarrow> concat (map (\<lambda>(gap, g, m). [gap, g]) ms) @ [tail])"

section \<open>Text cleaning (\<open>app/utils/text_cleaner.py\<close>)\<close>

text \<open>The exceptions that the modelled code can raise.\<close>

datatype error = IndexError | ValueError

text \<open>\<open>xs[i]\<close> for \<open>0 \<le> i\<close>: an index past the end raises.\<close>

definition index :: "'a list \<Rightarrow> nat \<Rightarrow> error + 'a" where
  "index xs i = (if i < length xs then Inr (xs ! i) else Inl IndexError)"

text \<open>\<open>range(0, n, 2)\<close>.\<close>

definition range2 :: "nat \<Rightarrow> nat list" where
  "range2 n = map (\<lambda>k. 2 * k) [0 ..< (n + 1) div 2]"

text \<open>\<open>clean_text\<close>: the pattern is \<open>\s+\<close>.\<close>

definition clean_text :: "string \<Rightarrow> string" where
  "clean_text text =
     (if text = [] then []
      else strip (re_sub (Plus [Space]) '' '' text))"

text \<open>
  \<open>split_into_clauses\<close>. The paragraph pattern is \<open>\n\s*\n+\<close>, the sentence pattern is
  \<open>([.!?]+(?:\s+|$))\<close>. The state of the loop over the sentences is the pair of the list
  \<open>clauses\<close> and the string \<open>current_clause\<close>; \<open>min_length\<close> is a Python \<open>int\<close>.
\<close>

definition paragraph_break :: regex where
  "paragraph_break = Seq (Lit [CHR 0x0A]) (Seq (Star [Space]) (Plus [Ch (CHR 0x0A)]))"

definition sentence_end :: gpattern where
  "sentence_end =
     (Lit [], Seq (Plus [Ch CHR ''.'', Ch CHR ''!'', Ch CHR ''?'']) (Alt (Plus [Space]) Eol), Lit [])"

definition sentence_at :: "string list \<Rightarrow> nat \<Rightarrow> error + string" where
  "sentence_at sentences i =
     (case index sentences i of
        Inl err \<Rightarrow> Inl err
      | Inr sentence \<Rightarrow>
          if i + 1 < length sentences
          then (case index sentences (i + 1) of
                  Inl err \<Rightarrow> Inl err
                | Inr sep \<Rightarrow> Inr (sentence @ sep))
          else Inr sentence)"

definition add_sentence :: "int \<Rightarrow> string \<Rightarrow> string list \<times> string \<Rightarrow> string list \<times> string" where
  "add_sentence min_length sentence st =
     (case st of (clauses, current_clause) \<Rightarrow>
        if sentence = [] then (clauses, current_clause)
        else if min_length \<le> int (length sentence)
        then ((if current_clause = [] then clauses else clauses @ [current_clause]) @ [sentence], [])
        else (let current_clause' =
                    (if current_clause = [] then sentence
                     else current_clause @ '' '' @ sentence)
              in if min_length \<le> int (length current_clause')
                 then (clauses @ [current_clause'], [])
                 else (clauses, current_clause')))"

fun sentence_loop ::
  "int \<Rightarrow> string list \<Rightarrow> nat list \<Rightarrow> string list \<times> string \<Rightarrow> error + (string list \<times> string)" where
  "sentence_loop min_length sentences [] st = Inr st"
| "sentence_loop min_length sentences (i # is) st =
     (case sentence_at sentences i of
        Inl err \<Rightarrow> Inl err
      | Inr sentence \<Rightarrow>
          sentence_loop min_length sentences is
            (add_sentence min_length (clean_text sentence) st))"

definition add_paragraph :: "int \<Rightarrow> string \<Rightarrow> string list \<Rightarrow> error + string list" where
  "add_paragraph min_length paragraph0 clauses =
     (let paragraph = clean_text paragraph0 in
      if int (length paragraph) < min_length then Inr clauses
      else (let sentences = re_split_group sentence_end paragraph in
            case sentence_loop min_length sentences (range2 (length sentences)) (clauses, []) of
              Inl err \<Rightarrow> Inl err
            | Inr (clauses', current_clause) \<Rightarrow>
                if current_clause = [] then Inr clauses'
                else if min_length \<le> int (length current_clause)
                then Inr (clauses' @ [current_clause])
                else Inr clauses'))"

fun paragraph_loop :: "int \<Rightarrow> string list \<Rightarrow> string list \<Rightarrow> error + string list" where
  "paragraph_loop min_length [] clauses = Inr clauses"
| "paragraph_loop min_length (paragraph # ps) clauses =
     (case add_paragraph min_length paragraph clauses of
        Inl err \<Rightarrow> Inl err
      | Inr clauses' \<Rightarrow> paragraph_loop min_length ps clauses')"

definition split_into_clauses :: "string \<Rightarrow> int \<Rightarrow> error + string list" where
  "split_into_clauses text min_length =
     (if text = [] then Inr []
      else case paragraph_loop min_length (re_split paragraph_break text) [] of
             Inl err \<Rightarrow> Inl err
           | Inr clauses \<Rightarrow> Inr (filter (\<lambda>c. min_length \<le> int (length c)) clauses))"

text \<open>
  \<open>extract_numbers\<close>. A Python \<open>float\<close> is modelled by the exact rational value of the
  decimal literal it is read from; the rounding to a binary double is not modelled.
  \<open>py_float\<close> is \<open>float(s)\<close> on the unsigned literals \<open>digits\<close>, \<open>digits.\<close>,
  \<open>digits.digits\<close> and \<open>.digits\<close>; on every other string the model answers
  \<open>ValueError\<close> (Python accepts more: signs, exponents, padding, \<open>inf\<close>, \<open>nan\<close>), so
  the branch that drops a token is at least as large here as in the source.
\<close>

definition digits_val :: "string \<Rightarrow> int" where
  "digits_val ds = foldl (\<lambda>acc c. 10 * acc + (code_point c - 48)) 0 ds"

definition py_float :: "string \<Rightarrow> error + rat" where
  "py_float t =
     (let ip = takeWhile is_digit t; rest = dropWhile is_digit t in
      case rest of
        [] \<Rightarrow> if ip = [] then Inl ValueError else Inr (of_int (digits_val ip))
      | c # fp \<Rightarrow>
          if c = CHR ''.'' \<and> list_all is_digit fp \<and> \<not> (ip = [] \<and> fp = [])
          then Inr (of_int (digits_val (ip @ fp)) / 10 ^ length fp)
          else Inl ValueError)"

definition number_literal :: regex where
  "number_literal = Seq (Plus [Digit]) (Seq (Opt (Lit ''.'')) (Star [Digit]))"

definition percentage_pattern :: gpattern where
  "percentage_pattern = (Lit [], number_literal, Seq (Star [Space]) (Lit ''%''))"

definition number_pattern :: gpattern where
  "number_pattern = (WordB, number_literal, WordB)"

fun to_floats :: "string list \<Rightarrow> rat list" where
  "to_floats [] = []"
| "to_floats (num_str # rest) =
     (case py_float num_str of
        Inl err \<Rightarrow> to_floats rest
      | Inr x \<Rightarrow> x # to_floats rest)"

definition extract_numbers :: "string \<Rightarrow> rat list" where
  "extract_numbers text =
     (let percentages = re_findall percentage_pattern text;
          numbers = re_findall number_pattern text
      in to_floats (percentages @ numbers))"

section \<open>Risk analysis (\<open>app/services/risk_analyzer.py\<close>)\<close>

text \<open>Concatenation of patterns, and the pattern \<open>\s+\<close> that joins the words of a keyword.\<close>

fun cat :: "regex list \<Rightarrow> regex" where
  "cat [] = Lit []"
| "cat [r] = r"
| "cat (r # rs) = Seq r (cat rs)"

abbreviation sp :: regex where
  "sp \<equiv> Plus [Space]"

definition NEGATIVE_INDICATORS :: "regex list" where
  "NEGATIVE_INDICATORS =
    [cat [WordB, Lit ''no'', sp],
     cat [WordB, Lit ''not'', sp],
     cat [WordB, Lit ''without'', sp],
     cat [WordB, Lit ''waive'', Opt (Lit ''d''), WordB],
     cat [WordB, Lit ''exempt'', WordB],
     cat [WordB, Lit ''excluded'', WordB],
     cat [WordB, Lit ''not'', sp, Lit ''applicable'', WordB],
     cat [WordB, Lit ''does'', sp, Lit ''not'', sp],
     cat [WordB, Lit ''will'', sp, Lit ''not'', sp],
     cat [WordB, Lit ''shall'', sp, Lit ''not'', sp],
     cat [WordB, Lit ''may'', sp, Lit ''not'', sp],
     cat [WordB, Lit ''cannot'', WordB],
     cat [WordB, Lit ''prohibited'', WordB],
     cat [WordB, Lit ''forbidden'', WordB],
     cat [WordB, Lit ''unavailable'', WordB],
     cat [WordB, Lit ''not'', sp, Lit ''subject'', sp, Lit ''to'', WordB],
     cat [WordB, Lit ''not'', sp, Lit ''liable'', sp, Lit ''for'', WordB],
     cat [WordB, Lit ''no'', sp, Lit ''charge'', sp, Lit ''for'', WordB],
     cat [WordB, Lit ''no'', sp, Lit ''fee'', sp, Lit ''for'', WordB],
     cat [WordB, Lit ''no'', sp, Lit ''penalty'', WordB],
     cat [WordB, Lit ''penalty'', sp, Lit ''waived'', WordB],
     cat [WordB, Lit ''fee'', sp, Lit ''waived'', WordB],
     cat [WordB, Lit ''no'', sp, Lit ''interest'', WordB],
     cat [WordB, Lit ''interest'', sp, Lit ''free'', WordB],
     cat [WordB, Lit ''zero'', sp, Lit ''interest'', WordB]]"

text \<open>
  An entry of \<open>RISK_PATTERNS\<close>. The keys \<open>threshold\<close> and \<open>base_severity\<close> are read with
  \<open>in\<close> and \<open>get\<close>, so they are optional fields.
\<close>

record pattern_config =
  keywords_re :: "regex list"
  threshold :: "rat option"
  risk_type :: string
  base_severity :: "string option"

definition high_interest :: pattern_config where
  "high_interest = \<lparr>
     keywords_re =
       [cat [Lit ''interest'', sp, Lit ''rate''],
        cat [Lit ''apr'', Star [Space], Opt (Alt (Lit ''of'') (Alt (Lit ''is'') (Lit ''at'')))],
        cat [Lit ''annual'', sp, Lit ''percentage'', sp, Lit ''rate''],
        cat [Lit ''interest'', sp, Lit ''charged''],
        cat [Lit ''rate'', sp, Lit ''of'', sp, Lit ''interest'']],
     threshold = Some 18,
     risk_type = ''High Interest Rate'',
     base_severity = Some ''High'' \<rparr>"

definition hidden_fees :: pattern_config where
  "hidden_fees = \<lparr>
     keywords_re =
       [cat [Lit ''hidden'', sp, Lit ''fee''],
        cat [Lit ''administrative'', sp, Lit ''fee''],
        cat [Lit ''processing'', sp, Lit ''fee''],
        cat [Lit ''service'', sp, Lit ''charge''],
        cat [Lit ''convenience'', sp, Lit ''fee''],
        cat [Lit ''maintenance'', sp, Lit ''fee''],
        cat [Lit ''annual'', sp, Lit ''fee''],
        cat [Lit ''late'', sp, Lit ''fee''],
        cat [Lit ''overdraft'', sp, Lit ''fee''],
        cat [Lit ''transaction'', sp, Lit ''fee''],
        cat [Lit ''application'', sp, Lit ''fee''],
        cat [Lit ''origination'', sp, Lit ''fee'']],
     threshold = None,
     risk_type = ''Hidden Fees'',
     base_severity = Some ''Medium'' \<rparr>"

definition penalty_clauses :: pattern_config where
  "penalty_clauses = \<lparr>
     keywords_re =
       [Lit ''penalty'',
        cat [Lit ''penal'', sp, Lit ''interest''],
        cat [Lit ''default'', sp, Lit ''rate''],
        cat [Lit ''penalty'', sp, Lit ''charge''],
        cat [Lit ''penalty'', sp, Lit ''fee''],
        cat [Lit ''breach'', sp, Lit ''penalty''],
        cat [Lit ''violation'', sp, Lit ''penalty'']],
     threshold = None,
     risk_type = ''Penalty Clauses'',
     base_severity = Some ''High'' \<rparr>"

definition auto_renewal :: pattern_config where
  "auto_renewal = \<lparr>
     keywords_re =
       [cat [Lit ''auto'', Opt (Cls [Ch CHR ''-'', Space]), Lit ''renew''],
        cat [Lit ''automatic'', sp, Lit ''renewal''],
        cat [Lit ''auto'', Opt (Cls [Ch CHR ''-'', Space]), Lit ''extend''],
        cat [Lit ''automatic'', sp, Lit ''extension''],
        cat [Lit ''renew'', sp, Lit ''automatically''],
        cat [Lit ''continuous'', sp, Lit ''renewal'']],
     threshold = None,
     risk_type = ''Auto-Renewal'',
     base_severity = Some ''Medium'' \<rparr>"

definition one_sided_termination :: pattern_config where
  "one_sided_termination = \<lparr>
     keywords_re =
       [cat [Lit ''sole'', sp, Lit ''discretion''],
        cat [Lit ''without'', sp, Lit ''notice''],
        cat [Lit ''terminate'', sp, Lit ''at'', sp, Lit ''any'', sp, Lit ''time''],
        cat [Lit ''termination'', sp, Lit ''without'', sp, Lit ''cause''],
        cat [Lit ''unilateral'', sp, Lit ''termination''],
        cat [Lit ''terminate'', sp, Lit ''immediately''],
        cat [Lit ''at'', sp, Lit ''our'', sp, Lit ''discretion''],
        cat [Lit ''we'', sp, Lit ''may'', sp, Lit ''terminate''],
        cat [Lit ''reserve'', sp, Lit ''the'', sp, Lit ''right'', sp, Lit ''to'', sp, Lit ''terminate'']],
     threshold = None,
     risk_type = ''One-Sided Termination'',
     base_severity = Some ''High'' \<rparr>"

definition arbitration_clause :: pattern_config where
  "arbitration_clause = \<lparr>
     keywords_re =
       [cat [Lit ''binding'', sp, Lit ''arbitration''],
        cat [Lit ''mandatory'', sp, Lit ''arbitration''],
        cat [Lit ''waive'', sp, Lit ''right'', sp, Lit ''to'', sp, Lit ''sue''],
        cat [Lit ''class'', sp, Lit ''action'', sp, Lit ''waiver''],
        cat [Lit ''dispute'', sp, Lit ''resolution'', sp, Lit ''by'', sp, Lit ''arbitration'']],
     threshold = None,
     risk_type = ''Arbitration Clause'',
     base_severity = Some ''Low'' \<rparr>"

definition variable_rate :: pattern_config where
  "variable_rate = \<lparr>
     keywords_re =
       [cat [Lit ''variable'', sp, Lit ''rate''],
        cat [Lit ''adjustable'', sp, Lit ''rate''],
        cat [Lit ''rate'', sp, Lit ''may'', sp, Lit ''change''],
        cat [Lit ''rate'', sp, Lit ''subject'', sp, Lit ''to'', sp, Lit ''change''],
        cat [Lit ''floating'', sp, Lit ''rate'']],
     threshold = None,
     risk_type = ''Variable Interest Rate'',
     base_severity = Some ''Medium'' \<rparr>"

definition prepayment_penalty :: pattern_config where
  "prepayment_penalty = \<lparr>
     keywords_re =
       [cat [Lit ''prepayment'', sp, Lit ''penalty''],
        cat [Lit ''early'', sp, Lit ''payment'', sp, Lit ''penalty''],
        cat [Lit ''prepayment'', sp, Lit ''charge''],
        cat [Lit ''early'', sp, Lit ''termination'', sp, Lit ''fee'']],
     threshold = None,
     risk_type = ''Prepayment Penalty'',
     base_severity = Some ''Medium'' \<rparr>"

text \<open>The dictionary \<open>RISK_PATTERNS\<close>, in its insertion order, which is the order of \<open>items()\<close>.\<close>

definition RISK_PATTERNS :: "(string \<times> pattern_config) list" where
  "RISK_PATTERNS =
    [(''high_interest'', high_interest),
     (''hidden_fees'', hidden_fees),
     (''penalty_clauses'', penalty_clauses),
     (''auto_renewal'', auto_renewal),
     (''one_sided_termination'', one_sided_termination),
     (''arbitration_clause'', arbitration_clause),
     (''variable_rate'', variable_rate),
     (''prepayment_penalty'', prepayment_penalty)]"

text \<open>\<open>_has_negative_context\<close>: the window is \<open>clause_lower[max(0, pos - 50):pos]\<close>.\<close>

definition has_negative_context :: "string \<Rightarrow> nat \<Rightarrow> bool" where
  "has_negative_context clause_lower keyword_match_pos =
     (let context_start = keyword_match_pos - 50;
          context_before = slice clause_lower context_start keyword_match_pos
      in list_ex (\<lambda>negative_pattern. re_search True negative_pattern context_before \<noteq> None)
           NEGATIVE_INDICATORS)"

text \<open>
  The first loop of \<open>_check_pattern\<close>: \<open>match.start()\<close> for the first keyword that matches.
\<close>

fun match_position :: "regex list \<Rightarrow> string \<Rightarrow> nat option" where
  "match_position [] clause_lower = None"
| "match_position (keyword_pattern # rest) clause_lower =
     (case re_search True keyword_pattern clause_lower of
        Some (start, m) \<Rightarrow> Some start
      | None \<Rightarrow> match_position rest clause_lower)"

text \<open>
  What an f-string puts for a float: the shortest decimal that reads back as the same
  double. For a non-negative value with at most 15 significant digits below \<open>10^16\<close> that
  is the integer part, the point and the digits of the fraction (\<open>0\<close> when there is none),
  which is what \<open>float_repr\<close> prints, the fraction cut after 17 digits.
\<close>

fun nat_repr :: "nat \<Rightarrow> string" where
  "nat_repr n =
     (if n < 10 then [char_of (48 + n)]
      else nat_repr (n div 10) @ [char_of (48 + n mod 10)])"

fun frac_repr :: "nat \<Rightarrow> rat \<Rightarrow> string" where
  "frac_repr 0 f = []"
| "frac_repr (Suc k) f =
     (let d = nat \<lfloor>f * 10\<rfloor>; f' = f * 10 - of_nat d
      in char_of (48 + d) # (if f' = 0 then [] else frac_repr k f'))"

definition float_repr :: "rat \<Rightarrow> string" where
  "float_repr x = nat_repr (nat \<lfloor>x\<rfloor>) @ ''.'' @ frac_repr 17 (x - of_int \<lfloor>x\<rfloor>)"

definition explanations :: "(string \<times> string) list" where
  "explanations =
    [(''High Interest Rate'',
      ''This clause mentions interest rates. High interest rates can '' @
      ''significantly increase the total amount you'' @ [CHR 0x27] @ ''ll pay over time. '' @
      ''Compare this rate with market standards and consider the impact '' @
      ''on your financial obligations.''),
     (''Hidden Fees'',
      ''This clause mentions additional fees beyond the principal amount. '' @
      ''These fees can add up over time and increase the total cost. '' @
      ''Review all fee structures carefully to understand the complete '' @
      ''financial commitment.''),
     (''Penalty Clauses'',
      ''This clause contains penalty provisions that may be triggered '' @
      ''if you fail to meet certain conditions. Penalties can result in '' @
      ''additional charges, increased interest rates, or other financial '' @
      ''consequences. Understand the conditions that trigger penalties.''),
     (''Auto-Renewal'',
      ''This clause indicates automatic renewal of the agreement. '' @
      ''You may be bound to continue the contract unless you take '' @
      ''specific action to cancel. Be aware of renewal dates and '' @
      ''cancellation procedures.''),
     (''One-Sided Termination'',
      ''This clause allows one party (typically the lender/service provider) '' @
      ''to terminate the agreement with minimal notice or at their discretion. '' @
      ''This creates an imbalance of power and may leave you without '' @
      ''adequate protection or recourse.''),
     (''Arbitration Clause'',
      ''This clause requires disputes to be resolved through arbitration '' @
      ''rather than court. This may limit your ability to pursue legal '' @
      ''action or participate in class action lawsuits. Understand your '' @
      ''rights and options for dispute resolution.''),
     (''Variable Interest Rate'',
      ''This clause indicates that the interest rate can change over time. '' @
      ''Variable rates may increase, potentially raising your payments '' @
      ''significantly. Understand the factors that determine rate changes '' @
      ''and potential maximum rates.''),
     (''Prepayment Penalty'',
      ''This clause imposes penalties for paying off the loan early. '' @
      ''This can discourage early repayment and may result in additional '' @
      ''costs if you want to pay off the debt ahead of schedule.'')]"

definition generate_explanation :: "string \<Rightarrow> string \<Rightarrow> string \<Rightarrow> string" where
  "generate_explanation rt sev clause_text =
     (case map_of explanations rt of
        Some e \<Rightarrow> e
      | None \<Rightarrow>
          ''This clause contains terms that may pose a '' @ lower sev @ '' risk. '' @
          ''Review carefully and consider seeking professional advice.'')"

definition high_rate_explanation :: "rat \<Rightarrow> rat \<Rightarrow> string" where
  "high_rate_explanation num thr =
     ''Identified interest rate of '' @ float_repr num @ ''% which exceeds '' @
     ''the typical threshold of '' @ float_repr thr @ ''%. This is considered '' @
     ''a high interest rate that may result in significant '' @
     ''financial burden over time.''"

definition review_rate_explanation :: string where
  "review_rate_explanation =
     ''Interest rate clause identified. Review the specific rate '' @
     ''and terms carefully to understand the total cost of borrowing.''"

text \<open>\<open>_check_pattern\<close>: \<open>None\<close>, or the pair of the severity and the explanation.\<close>

definition check_pattern :: "string \<Rightarrow> string \<Rightarrow> pattern_config \<Rightarrow> (string \<times> string) option" where
  "check_pattern clause_lower clause_original pattern_config =
     (let sev = (case base_severity pattern_config of Some b \<Rightarrow> b | None \<Rightarrow> ''Medium'') in
      case match_position (keywords_re pattern_config) clause_lower of
        None \<Rightarrow> None
      | Some pos \<Rightarrow>
          (if has_negative_context clause_lower pos then None
           else (case (if contains ''interest'' (lower (risk_type pattern_config))
                       then threshold pattern_config else None) of
                   Some thr \<Rightarrow>
                     (case find (\<lambda>num. thr \<le> num) (extract_numbers clause_original) of
                        Some num \<Rightarrow> Some (''High'', high_rate_explanation num thr)
                      | None \<Rightarrow> Some (''Medium'', review_rate_explanation))
                 | None \<Rightarrow>
                     Some (sev, generate_explanation (risk_type pattern_config) sev
                                  clause_original))))"

text \<open>The model \<open>Clause\<close> of \<open>app/models/schemas.py\<close>.\<close>

record Clause =
  clause_id :: string
  text_str :: string
  risk_type :: string
  severity :: string
  explanation :: string

text \<open>
  \<open>analyze_document\<close>. The set \<open>seen_clauses\<close> holds the hashes of the keys
  \<open>clause_text[:100] + risk_type\<close>; the model keeps the keys themselves, that is, \<open>hash\<close> is
  taken to be injective. The state of the two loops is the pair of \<open>identified_risks\<close> and
  \<open>seen_clauses\<close>. \<open>uuid4 k\<close> is the string that the \<open>k\<close>-th call of \<open>uuid.uuid4()\<close> gives.
  The source also computes \<open>normalized_text = text.lower()\<close> and never reads it.
\<close>

definition clause_key :: "string \<Rightarrow> pattern_config \<Rightarrow> string" where
  "clause_key clause_text pattern_config = take 100 clause_text @ pattern_config.risk_type pattern_config"

fun scan_patterns ::
  "string \<Rightarrow> string \<Rightarrow> pattern_config list \<Rightarrow> Clause list \<times> string set \<Rightarrow> Clause list \<times> string set" where
  "scan_patterns cid clause_text [] st = st"
| "scan_patterns cid clause_text (pattern_config # rest) st =
     (case check_pattern (lower clause_text) clause_text pattern_config of
        None \<Rightarrow> scan_patterns cid clause_text rest st
      | Some (sev, expl) \<Rightarrow>
          (case st of (identified_risks, seen_clauses) \<Rightarrow>
             if clause_key clause_text pattern_config \<in> seen_clauses
             then scan_patterns cid clause_text rest st
             else (identified_risks @
                     [\<lparr> clause_id = cid, text_str = take 500 clause_text,
                        risk_type = pattern_config.risk_type pattern_config,
                        severity = sev, explanation = expl \<rparr>],
                   insert (clause_key clause_text pattern_config) seen_clauses)))"

fun clause_loop ::
  "(nat \<Rightarrow> string) \<Rightarrow> nat \<Rightarrow> string list \<Rightarrow> Clause list \<times> string set \<Rightarrow> Clause list \<times> string set" where
  "clause_loop uuid4 k [] st = st"
| "clause_loop uuid4 k (clause_text # rest) st =
     clause_loop uuid4 (Suc k) rest
       (scan_patterns (uuid4 k) clause_text (map snd RISK_PATTERNS) st)"

definition analyze_document :: "(nat \<Rightarrow> string) \<Rightarrow> string \<Rightarrow> error + Clause list" where
  "analyze_document uuid4 txt =
     (if txt = [] \<or> length (strip txt) < 50 then Inr []
      else case split_into_clauses txt 30 of
             Inl err \<Rightarrow> Inl err
           | Inr clauses \<Rightarrow> Inr (fst (clause_loop uuid4 0 clauses ([], {}))))"

text \<open>
  Notions used to state the properties of \<open>analyze_document\<close>: the deduplication key of a
  flagged clause, the invariant that links \<open>identified_risks\<close> and \<open>seen_clauses\<close>, the
  patterns that can still flag a clause, and the \<open>Clause\<close> appended for a pattern.
\<close>

definition dedup_key :: "Clause \<Rightarrow> string" where
  "dedup_key c = take 100 (text_str c) @ Clause.risk_type c"

definition seen_inv :: "Clause list \<times> string set \<Rightarrow> bool" where
  "seen_inv st = (distinct (map dedup_key (fst st)) \<and> set (map dedup_key (fst st)) \<subseteq> snd st)"

definition new_hit :: "string \<Rightarrow> string set \<Rightarrow> pattern_config \<Rightarrow> bool" where
  "new_hit clause_text seen_clauses p =
     (check_pattern (lower clause_text) clause_text p \<noteq> None \<and>
      clause_key clause_text p \<notin> seen_clauses)"

definition flagged :: "string \<Rightarrow> string \<Rightarrow> pattern_config \<Rightarrow> Clause" where
  "flagged cid clause_text p =
     \<lparr> clause_id = cid, text_str = take 500 clause_text,
       risk_type = pattern_config.risk_type p,
       severity = fst (the (check_pattern (lower clause_text) clause_text p)),
       explanation = snd (the (check_pattern (lower clause_text) clause_text p)) \<rparr>"


text \<open>
  Notions used to state and prove the properties of \<open>split_into_clauses\<close>.
  \<open>items_of\<close> gives the sentences that the loop of
  \<open>split_into_clauses\<close> reads off the result of \<open>re.split\<close>, \<open>run_items\<close> is the loop
  over them and \<open>finish\<close> the test after the loop. A string is \<open>tidy\<close> when its only
  white space is single blanks between other characters, which is what \<open>clean_text\<close>
  returns; \<open>sub_from\<close> is the substitution of \<open>clean_text\<close> from a position on.
  \<open>join_clause\<close> is the clause that the buffer \<open>current_clause\<close> and the text still to
  be read add up to, and \<open>prefix_first\<close> puts the characters read since the last match
  in front of the next sentence.
\<close>

definition items_of :: "(string \<times> string \<times> string) list \<times> string \<Rightarrow> string list" where
  "items_of res = map (\<lambda>(gap, g, m). gap @ g) (fst res) @ [snd res]"

definition run_items :: "int \<Rightarrow> string list \<Rightarrow> string list \<times> string \<Rightarrow> string list \<times> string" where
  "run_items ml items st = foldl (\<lambda>st x. add_sentence ml (clean_text x) st) st items"

definition only_blank :: "string \<Rightarrow> bool" where
  "only_blank s = (\<forall>c \<in> set s. is_space c \<longrightarrow> c = CHR '' '')"

fun single_ws :: "string \<Rightarrow> bool" where
  "single_ws [] = True"
| "single_ws [a] = True"
| "single_ws (a # b # t) = (\<not> (is_space a \<and> is_space b) \<and> single_ws (b # t))"

definition edges_ok :: "string \<Rightarrow> bool" where
  "edges_ok s = (s = [] \<or> (\<not> is_space (hd s) \<and> \<not> is_space (last s)))"

definition tidy :: "string \<Rightarrow> bool" where
  "tidy s = (only_blank s \<and> single_ws s \<and> edges_ok s)"

definition sub_from :: "char option \<Rightarrow> string \<Rightarrow> string" where
  "sub_from prev rest =
     (case finditer_from False (whole sp) prev rest of
        (ms, tail) \<Rightarrow> concat (map (\<lambda>(gap, g, m). gap @ '' '') ms) @ tail)"

definition join_clause :: "string \<Rightarrow> string \<Rightarrow> string" where
  "join_clause cur s = (if cur = [] then s else if s = [] then cur else cur @ '' '' @ s)"

definition finish :: "int \<Rightarrow> string list \<times> string \<Rightarrow> string list" where
  "finish ml st =
     (case st of (clauses, current_clause) \<Rightarrow>
        if current_clause = [] then clauses
        else if ml \<le> int (length current_clause) then clauses @ [current_clause]
        else clauses)"

fun prefix_first ::
  "string \<Rightarrow> (string \<times> string \<times> string) list \<times> string \<Rightarrow> (string \<times> string \<times> string) list \<times> string" where
  "prefix_first pg ([], tail) = ([], pg @ tail)"
| "prefix_first pg ((gap, g, m) # ms, tail) = ((pg @ gap, g, m) # ms, tail)"

section \<open>Properties\<close>

subsection \<open>Short documents\<close>

text \<open>
  C5. For every input string whose trimmed length is less than 50 characters (the empty
  string among them), \<open>analyze_document\<close> returns the empty list.
\<close>

theorem analyze_document_short:
  "length (strip txt) < 50 \<Longrightarrow> analyze_document uuid4 txt = Inr []"
  by (simp add: analyze_document_def)

theorem analyze_document_short_witness:
  "length (strip '' Late fee: 2%  '') < 50 \<and>
   analyze_document (\<lambda>k. []) '' Late fee: 2%  '' = Inr []"
proof -
  have h: "length (strip '' Late fee: 2%  '') < 50" by code_simp
  show ?thesis using h analyze_document_short [OF h, of "\<lambda>k. []"] by simp
qed

subsection \<open>The numeric extractor on the example of the specification\<close>

text \<open>
  C2, as stated: \<open>extract_numbers\<close> applied to \<open>Rate: 18.5% and fee of 20\<close> returns
  exactly \<open>[18.5, 20.0]\<close>. It does not: the pass for bare numbers finds \<open>18.5\<close> again.
\<close>

theorem extract_numbers_example_counterexample:
  "extract_numbers ''Rate: 18.5% and fee of 20'' \<noteq> [37 / 2, 20]"
  by code_simp

text \<open>
  C2, amended: \<open>extract_numbers\<close> applied to \<open>Rate: 18.5% and fee of 20\<close> returns
  \<open>[18.5, 18.5, 20.0]\<close>: the percentage first, then the bare numbers, \<open>18.5\<close> among them
  a second time.
\<close>

theorem extract_numbers_example:
  "extract_numbers ''Rate: 18.5% and fee of 20'' = [37 / 2, 37 / 2, 20]"
  by code_simp

subsection \<open>No exception escapes \<open>analyze_document\<close>\<close>

lemma range2_bound: "i \<in> set (range2 n) \<Longrightarrow> i < n"
  by (auto simp: range2_def)

lemma sentence_at_ok: "i < length sentences \<Longrightarrow> \<exists>x. sentence_at sentences i = Inr x"
  by (simp add: sentence_at_def index_def)

lemma sentence_loop_ok:
  "(\<And>i. i \<in> set is \<Longrightarrow> i < length sentences) \<Longrightarrow>
   \<exists>st'. sentence_loop ml sentences is st = Inr st'"
proof (induction "is" arbitrary: st)
  case Nil
  then show ?case by simp
next
  case (Cons i "is")
  from Cons.prems have "i < length sentences" by simp
  then obtain x where x: "sentence_at sentences i = Inr x"
    using sentence_at_ok by blast
  from Cons.IH Cons.prems show ?case by (simp add: x)
qed

lemma add_paragraph_ok: "\<exists>clauses'. add_paragraph ml paragraph clauses = Inr clauses'"
proof -
  let ?ss = "re_split_group sentence_end (clean_text paragraph)"
  obtain st' where "sentence_loop ml ?ss (range2 (length ?ss)) (clauses, []) = Inr st'"
    using sentence_loop_ok [of "range2 (length ?ss)" ?ss ml "(clauses, [])"] range2_bound
    by blast
  then show ?thesis
    by (cases st') (simp add: add_paragraph_def Let_def)
qed

lemma paragraph_loop_ok: "\<exists>clauses'. paragraph_loop ml ps clauses = Inr clauses'"
proof (induction ps arbitrary: clauses)
  case Nil
  then show ?case by simp
next
  case (Cons p ps)
  obtain c' where "add_paragraph ml p clauses = Inr c'"
    using add_paragraph_ok by blast
  with Cons.IH show ?case by simp
qed

lemma split_into_clauses_ok: "\<exists>clauses. split_into_clauses txt ml = Inr clauses"
proof -
  obtain c where "paragraph_loop ml (re_split paragraph_break txt) [] = Inr c"
    using paragraph_loop_ok by blast
  then show ?thesis by (simp add: split_into_clauses_def)
qed

text \<open>
  C8. For every string, \<open>analyze_document\<close> returns a list of flagged clauses: the index
  errors of the loop over the sentences cannot occur, a token that \<open>float\<close> rejects is
  dropped inside \<open>extract_numbers\<close>, and every loop is over a finite list.
\<close>

theorem analyze_document_total: "\<exists>risks. analyze_document uuid4 txt = Inr risks"
proof -
  obtain c where "split_into_clauses txt 30 = Inr c"
    using split_into_clauses_ok by blast
  then show ?thesis by (simp add: analyze_document_def)
qed

subsection \<open>Deduplication\<close>

lemma scan_patterns_inv: "seen_inv st \<Longrightarrow> seen_inv (scan_patterns cid ct ps st)"
proof (induction ps arbitrary: st)
  case Nil
  then show ?case by simp
next
  case (Cons p ps)
  obtain risks seen where st: "st = (risks, seen)" by (cases st)
  show ?case
  proof (cases "check_pattern (lower ct) ct p")
    case None
    with Cons show ?thesis by simp
  next
    case (Some r)
    obtain sev expl where r: "r = (sev, expl)" by (cases r)
    show ?thesis
    proof (cases "clause_key ct p \<in> seen")
      case True
      with Cons Some r st show ?thesis by simp
    next
      case False
      with Cons.prems Some r st show ?thesis
        by (auto simp: seen_inv_def dedup_key_def clause_key_def)
    qed
  qed
qed

lemma clause_loop_inv: "seen_inv st \<Longrightarrow> seen_inv (clause_loop uuid4 k cs st)"
  by (induction cs arbitrary: k st) (simp_all add: scan_patterns_inv)

lemma distinct_pairs:
  assumes "distinct (map dedup_key cs)"
  shows "distinct (map (\<lambda>c. (take 100 (text_str c), Clause.risk_type c)) cs)"
proof -
  have "map dedup_key cs =
        map (\<lambda>(a, b). a @ b) (map (\<lambda>c. (take 100 (text_str c), Clause.risk_type c)) cs)"
    by (simp add: dedup_key_def)
  with assms show ?thesis by (metis distinct_map)
qed

text \<open>
  C7. Within one run of \<open>analyze_document\<close>, no two flagged clauses carry the same pair of
  (first 100 characters of the clause text, risk type): a flag whose key was already
  emitted is skipped.
\<close>

theorem analyze_document_dedup:
  "\<exists>risks. analyze_document uuid4 txt = Inr risks \<and>
     distinct (map (\<lambda>c. (take 100 (text_str c), Clause.risk_type c)) risks)"
proof -
  obtain c where c: "split_into_clauses txt 30 = Inr c"
    using split_into_clauses_ok by blast
  have "seen_inv (clause_loop uuid4 0 c ([], {}))"
    by (rule clause_loop_inv) (simp add: seen_inv_def)
  then have "distinct (map dedup_key (fst (clause_loop uuid4 0 c ([], {}))))"
    by (simp add: seen_inv_def)
  then show ?thesis
    using c distinct_pairs by (auto simp: analyze_document_def)
qed

subsection \<open>One flag for each clause\<close>

lemma scan_patterns_find:
  "scan_patterns cid ct ps (risks, seen) =
     (case find (new_hit ct seen) ps of
        None \<Rightarrow> (risks, seen)
      | Some p \<Rightarrow> (risks @ [flagged cid ct p], insert (clause_key ct p) seen))"
  by (induction ps) (auto simp: new_hit_def flagged_def split: option.splits)





subsection \<open>Facts about the matcher\<close>

text \<open>
  The matches that \<open>rmatch\<close> lists, described as a set, and the unfolding of the scan
  \<open>finditer_from\<close> case by case.
\<close>

declare finditer_from.simps [simp del]

lemma greedy_iff: "(m, r) \<in> set (greedy ok rest) \<longleftrightarrow> rest = m @ r \<and> (\<forall>c \<in> set m. ok c)"
proof (induction rest arbitrary: m r)
  case Nil
  then show ?case by auto
next
  case (Cons d t)
  show ?case
  proof (cases m)
    case Nil
    then show ?thesis using Cons by auto
  next
    case (Cons c m')
    then show ?thesis using Cons.IH [of m' r] by auto
  qed
qed

lemma cls_ok_Digit [simp]: "cls_ok ic [Digit] = is_digit"
  by (rule ext) simp

lemma cls_ok_Space [simp]: "cls_ok ic [Space] = is_space"
  by (rule ext) simp

lemma lit_match_exact: "lit_match False w rest = Some (m, r) \<longleftrightarrow> m = w \<and> rest = w @ r"
proof (induction w arbitrary: rest m)
  case Nil
  then show ?case by auto
next
  case (Cons c w)
  show ?case
  proof (cases rest)
    case Nil
    then show ?thesis by auto
  next
    case (Cons d t)
    show ?thesis
      using Cons.IH [of t "tl m"] Cons
      by (cases m) (auto split: option.splits)
  qed
qed

lemma rmatch_Lit_iff:
  "(m, r) \<in> set (rmatch ic (Lit w) prev rest) \<longleftrightarrow> lit_match ic w rest = Some (m, r)"
  by (auto split: option.splits)

lemma rmatch_Cls_iff:
  "(m, r) \<in> set (rmatch ic (Cls its) prev rest) \<longleftrightarrow>
     (\<exists>d. m = [d] \<and> rest = d # r \<and> cls_ok ic its d)"
  by (cases rest) auto

lemma rmatch_Star_iff:
  "(m, r) \<in> set (rmatch ic (Star its) prev rest) \<longleftrightarrow>
     rest = m @ r \<and> (\<forall>c \<in> set m. cls_ok ic its c)"
  by (simp add: greedy_iff)

lemma rmatch_Plus_iff:
  "(m, r) \<in> set (rmatch ic (Plus its) prev rest) \<longleftrightarrow>
     rest = m @ r \<and> m \<noteq> [] \<and> (\<forall>c \<in> set m. cls_ok ic its c)"
  by (auto simp: greedy_iff)

lemma rmatch_Opt_iff:
  "(m, r) \<in> set (rmatch ic (Opt a) prev rest) \<longleftrightarrow>
     (m, r) \<in> set (rmatch ic a prev rest) \<or> (m = [] \<and> r = rest)"
  by auto

lemma rmatch_Seq_iff:
  "(m, r) \<in> set (rmatch ic (Seq a b) prev rest) \<longleftrightarrow>
     (\<exists>m1 r1 m2. (m1, r1) \<in> set (rmatch ic a prev rest) \<and>
        (m2, r) \<in> set (rmatch ic b (after prev m1) r1) \<and> m = m1 @ m2)"
  by force

lemma rmatch_Alt_iff:
  "(m, r) \<in> set (rmatch ic (Alt a b) prev rest) \<longleftrightarrow>
     (m, r) \<in> set (rmatch ic a prev rest) \<or> (m, r) \<in> set (rmatch ic b prev rest)"
  by auto

lemma rmatch_WordB_iff:
  "(m, r) \<in> set (rmatch ic WordB prev rest) \<longleftrightarrow> m = [] \<and> r = rest \<and> word_boundary prev rest"
  by auto

lemma rmatch_Eol_iff:
  "(m, r) \<in> set (rmatch ic Eol prev rest) \<longleftrightarrow> m = [] \<and> r = rest \<and> at_end rest"
  by auto

lemmas rmatch_iff = rmatch_Lit_iff rmatch_Cls_iff rmatch_Star_iff rmatch_Plus_iff rmatch_Opt_iff
  rmatch_Seq_iff rmatch_Alt_iff rmatch_WordB_iff rmatch_Eol_iff

lemma gmatch_iff:
  "(g, m, r) \<in> set (gmatch ic (pre, grp, post) prev rest) \<longleftrightarrow>
     (\<exists>m1 r1 r2 m3. (m1, r1) \<in> set (rmatch ic pre prev rest) \<and>
        (g, r2) \<in> set (rmatch ic grp (after prev m1) r1) \<and>
        (m3, r) \<in> set (rmatch ic post (after (after prev m1) g) r2) \<and>
        m = m1 @ g @ m3)"
proof
  assume "(g, m, r) \<in> set (gmatch ic (pre, grp, post) prev rest)"
  then show "\<exists>m1 r1 r2 m3. (m1, r1) \<in> set (rmatch ic pre prev rest) \<and>
        (g, r2) \<in> set (rmatch ic grp (after prev m1) r1) \<and>
        (m3, r) \<in> set (rmatch ic post (after (after prev m1) g) r2) \<and>
        m = m1 @ g @ m3"
    by auto
next
  assume "\<exists>m1 r1 r2 m3. (m1, r1) \<in> set (rmatch ic pre prev rest) \<and>
        (g, r2) \<in> set (rmatch ic grp (after prev m1) r1) \<and>
        (m3, r) \<in> set (rmatch ic post (after (after prev m1) g) r2) \<and>
        m = m1 @ g @ m3"
  then obtain m1 r1 r2 m3 where
    1: "(m1, r1) \<in> set (rmatch ic pre prev rest)" and
    2: "(g, r2) \<in> set (rmatch ic grp (after prev m1) r1)" and
    3: "(m3, r) \<in> set (rmatch ic post (after (after prev m1) g) r2)" and
    m: "m = m1 @ g @ m3"
    by blast
  from 3 m have "(g, m, r) \<in> (\<lambda>(m3, r3). (g, m1 @ g @ m3, r3)) ` set (rmatch ic post (after (after prev m1) g) r2)"
    by force
  with 1 2 show "(g, m, r) \<in> set (gmatch ic (pre, grp, post) prev rest)"
    by (simp del: rmatch.simps) (use 1 2 in force)
qed

lemma finditer_from_Nil:
  "finditer_from ic p prev [] =
     (case gmatch ic p prev [] of [] \<Rightarrow> ([], []) | (g, m, left) # xs \<Rightarrow> ([([], g, m)], []))"
proof (cases "gmatch ic p prev []")
  case Nil
  then show ?thesis by (simp add: finditer_from.simps)
next
  case (Cons x xs)
  obtain g m left where x: "x = (g, m, left)" by (cases x)
  with Cons have "(g, m, left) \<in> set (gmatch ic p prev [])" by simp
  from gmatch_append [OF this] have "m = []" by simp
  with Cons x show ?thesis by (simp add: finditer_from.simps)
qed

lemma finditer_from_nomatch:
  "gmatch ic p prev (d # t) = [] \<Longrightarrow>
   finditer_from ic p prev (d # t) = push d (finditer_from ic p (Some d) t)"
  by (simp add: finditer_from.simps [of ic p prev "d # t"])

lemma finditer_from_empty_match:
  "gmatch ic p prev (d # t) = (g, [], left) # xs \<Longrightarrow>
   finditer_from ic p prev (d # t) =
     (case push d (finditer_from ic p (Some d) t) of (ms, tail) \<Rightarrow> (([], g, []) # ms, tail))"
  by (simp add: finditer_from.simps [of ic p prev "d # t"])

lemma finditer_from_match:
  "gmatch ic p prev rest = (g, m, left) # xs \<Longrightarrow> m \<noteq> [] \<Longrightarrow>
   finditer_from ic p prev rest =
     (case finditer_from ic p (Some (last m)) left of (ms, tail) \<Rightarrow> (([], g, m) # ms, tail))"
  by (simp add: finditer_from.simps [of ic p prev rest])

lemma push_groups: "map snd (fst (push d res)) = map snd (fst res)"
  by (induction d res rule: push.induct) auto

lemma push_groups_set: "snd ` set (fst (push d res)) = snd ` set (fst res)"
  using push_groups [of d res] by (metis set_map)

lemma finditer_from_groups:
  "(g, m) \<in> set (map snd (fst (finditer_from ic p prev rest))) \<Longrightarrow>
   \<exists>prev' rest' left. (g, m, left) \<in> set (gmatch ic p prev' rest')"
proof (induction ic p prev rest rule: finditer_from.induct)
  case (1 ic p prev rest)
  show ?case
  proof (cases "gmatch ic p prev rest")
    case Nil
    show ?thesis
    proof (cases rest)
      case Nil
      with \<open>gmatch ic p prev rest = []\<close> "1.prems" show ?thesis
        by (simp add: finditer_from_Nil)
    next
      case (Cons d t)
      with \<open>gmatch ic p prev rest = []\<close> "1.prems"
      have "(g, m) \<in> set (map snd (fst (finditer_from ic p (Some d) t)))"
        by (simp add: finditer_from_nomatch push_groups_set)
      from "1.IH"(1) [OF \<open>gmatch ic p prev rest = []\<close> Cons this] show ?thesis .
    qed
  next
    case (Cons x xs)
    obtain g0 m0 left0 where x: "x = (g0, m0, left0)" by (cases x)
    have in0: "(g0, m0, left0) \<in> set (gmatch ic p prev rest)"
      using Cons x by simp
    show ?thesis
    proof (cases "m0 = []")
      case True
      show ?thesis
      proof (cases rest)
        case Nil
        with Cons x True "1.prems" have "(g, m) = (g0, m0)"
          by (simp add: finditer_from_Nil)
        with in0 show ?thesis by blast
      next
        case (Cons d t)
        obtain ms tail where r: "push d (finditer_from ic p (Some d) t) = (ms, tail)"
          by (cases "push d (finditer_from ic p (Some d) t)")
        from "1.prems" \<open>gmatch ic p prev rest = x # xs\<close> x True Cons r
        have "(g, m) = (g0, m0) \<or> (g, m) \<in> set (map snd ms)"
          by (auto simp: finditer_from_empty_match)
        then show ?thesis
        proof
          assume "(g, m) = (g0, m0)"
          with in0 show ?thesis by blast
        next
          assume "(g, m) \<in> set (map snd ms)"
          then have "(g, m) \<in> set (map snd (fst (finditer_from ic p (Some d) t)))"
            using push_groups_set [of d "finditer_from ic p (Some d) t"] r by simp
          from "1.IH"(2) [OF \<open>gmatch ic p prev rest = x # xs\<close> x [symmetric] refl True Cons this]
          show ?thesis .
        qed
      qed
    next
      case False
      obtain ms tail where r: "finditer_from ic p (Some (last m0)) left0 = (ms, tail)"
        by (cases "finditer_from ic p (Some (last m0)) left0")
      from "1.prems" Cons x False r
      have "(g, m) = (g0, m0) \<or> (g, m) \<in> set (map snd ms)"
        by (auto simp: finditer_from_match)
      then show ?thesis
      proof
        assume "(g, m) = (g0, m0)"
        with in0 show ?thesis by blast
      next
        assume "(g, m) \<in> set (map snd ms)"
        then have "(g, m) \<in> set (map snd (fst (finditer_from ic p (Some (last m0)) left0)))"
          using r by simp
        from "1.IH"(3) [OF Cons x [symmetric] refl False this]
        show ?thesis .
      qed
    qed
  qed
qed


subsection \<open>Every token of the numeric extractor is a float\<close>

lemma not_digit_point: "\<not> is_digit CHR ''.''"
  by (simp add: is_digit_def code_point_def)

lemma number_literal_shape:
  assumes "(m, r) \<in> set (rmatch False number_literal prev rest)"
  shows "\<exists>ds1 ds2. ds1 \<noteq> [] \<and> (\<forall>c \<in> set ds1. is_digit c) \<and> (\<forall>c \<in> set ds2. is_digit c) \<and>
           (m = ds1 @ ds2 \<or> m = ds1 @ ''.'' @ ds2)"
proof -
  from assms obtain m1 m2 m3 where
    1: "m1 \<noteq> []" "\<forall>c \<in> set m1. is_digit c" and
    2: "m2 = ''.'' \<or> m2 = []" and
    3: "\<forall>c \<in> set m3. is_digit c" and
    m: "m = m1 @ m2 @ m3"
    unfolding number_literal_def rmatch_iff lit_match_exact cls_ok_Digit
    by blast
  from 2 show ?thesis
  proof
    assume "m2 = ''.''"
    with 1 3 m show ?thesis by blast
  next
    assume "m2 = []"
    with 1 3 m show ?thesis by auto
  qed
qed

lemma digits_val_nonneg_aux:
  "\<forall>c \<in> set ds. is_digit c \<Longrightarrow> 0 \<le> acc \<Longrightarrow>
   0 \<le> foldl (\<lambda>acc c. 10 * acc + (code_point c - 48)) acc ds"
  by (induction ds arbitrary: acc) (auto simp: is_digit_def Let_def)

lemma digits_val_nonneg: "\<forall>c \<in> set ds. is_digit c \<Longrightarrow> 0 \<le> digits_val ds"
  by (simp add: digits_val_def digits_val_nonneg_aux)

lemma takeWhile_all: "\<forall>x \<in> set xs. P x \<Longrightarrow> takeWhile P xs = xs"
  by (induction xs) auto

lemma dropWhile_all: "\<forall>x \<in> set xs. P x \<Longrightarrow> dropWhile P xs = []"
  by simp

lemma py_float_digits:
  assumes "ds \<noteq> []" "\<forall>c \<in> set ds. is_digit c"
  shows "py_float ds = Inr (of_int (digits_val ds))"
  using assms by (simp add: py_float_def Let_def takeWhile_all dropWhile_all)

lemma py_float_point:
  assumes "ds1 \<noteq> []" "\<forall>c \<in> set ds1. is_digit c" "\<forall>c \<in> set ds2. is_digit c"
  shows "py_float (ds1 @ ''.'' @ ds2) = Inr (of_int (digits_val (ds1 @ ds2)) / 10 ^ length ds2)"
proof -
  from assms(2) have tw: "takeWhile is_digit (ds1 @ ''.'' @ ds2) = ds1"
    by (simp add: takeWhile_append2 not_digit_point)
  from assms(2) have dw: "dropWhile is_digit (ds1 @ ''.'' @ ds2) = ''.'' @ ds2"
    by (simp add: dropWhile_append2 not_digit_point)
  from assms(3) have "list_all is_digit ds2"
    by (simp add: list_all_iff)
  with assms(1) show ?thesis
    unfolding py_float_def Let_def tw dw by simp
qed

lemma number_literal_float:
  assumes "(m, r) \<in> set (rmatch False number_literal prev rest)"
  shows "\<exists>x. py_float m = Inr x \<and> 0 \<le> x"
proof -
  from number_literal_shape [OF assms] obtain ds1 ds2 where
    d: "ds1 \<noteq> []" "\<forall>c \<in> set ds1. is_digit c" "\<forall>c \<in> set ds2. is_digit c" and
    m: "m = ds1 @ ds2 \<or> m = ds1 @ ''.'' @ ds2"
    by blast
  from d have all: "\<forall>c \<in> set (ds1 @ ds2). is_digit c" by auto
  from m show ?thesis
  proof
    assume "m = ds1 @ ds2"
    with d all show ?thesis
      using py_float_digits [of "ds1 @ ds2"] digits_val_nonneg [of "ds1 @ ds2"] by simp
  next
    assume "m = ds1 @ ''.'' @ ds2"
    with d all show ?thesis
      using py_float_point [of ds1 ds2] digits_val_nonneg [of "ds1 @ ds2"] by simp
  qed
qed

lemma findall_tokens:
  assumes "t \<in> set (re_findall (pre, number_literal, post) txt)"
  shows "\<exists>x. py_float t = Inr x \<and> 0 \<le> x"
proof -
  from assms obtain gap m where
    "(gap, t, m) \<in> set (fst (finditer_from False (pre, number_literal, post) None txt))"
    by (auto simp: re_findall_def finditer_def)
  then have "(t, m) \<in> set (map snd (fst (finditer_from False (pre, number_literal, post) None txt)))"
    by force
  from finditer_from_groups [OF this] obtain prev' rest' left where
    "(t, m, left) \<in> set (gmatch False (pre, number_literal, post) prev' rest')"
    by blast
  then obtain prev'' r1 r2 where "(t, r2) \<in> set (rmatch False number_literal prev'' r1)"
    unfolding gmatch_iff by blast
  from number_literal_float [OF this] show ?thesis .
qed

lemma to_floats_all:
  "\<forall>t \<in> set ts. \<exists>x. py_float t = Inr x \<and> 0 \<le> x \<Longrightarrow>
   length (to_floats ts) = length ts \<and> (\<forall>x \<in> set (to_floats ts). 0 \<le> x)"
  by (induction ts) auto


text \<open>
  C10. In \<open>extract_numbers\<close>, for every input string, every token captured by the
  percentage pattern or by the bare-number pattern is accepted by \<open>float\<close> with a value
  that is not negative; so no token is dropped, the length of the result is the number of
  percentage matches plus the number of bare-number matches, and no value of the result is
  negative.
\<close>

theorem extract_numbers_total:
  "list_all (\<lambda>t. \<exists>x. py_float t = Inr x \<and> 0 \<le> x)
     (re_findall percentage_pattern txt @ re_findall number_pattern txt) \<and>
   length (extract_numbers txt) =
     length (re_findall percentage_pattern txt) + length (re_findall number_pattern txt) \<and>
   list_all (\<lambda>x. 0 \<le> x) (extract_numbers txt)"
proof -
  have all: "\<forall>t \<in> set (re_findall percentage_pattern txt @ re_findall number_pattern txt).
               \<exists>x. py_float t = Inr x \<and> 0 \<le> x"
    using findall_tokens by (auto simp: percentage_pattern_def number_pattern_def)
  from to_floats_all [OF all] all show ?thesis
    by (simp add: extract_numbers_def Let_def list_all_iff)
qed

theorem extract_numbers_total_witness:
  "list_all (\<lambda>t. \<exists>x. py_float t = Inr x \<and> 0 \<le> x)
     (re_findall percentage_pattern ''7. or 0.50 %'' @ re_findall number_pattern ''7. or 0.50 %'') \<and>
   length (extract_numbers ''7. or 0.50 %'') =
     length (re_findall percentage_pattern ''7. or 0.50 %'') +
     length (re_findall number_pattern ''7. or 0.50 %'') \<and>
   list_all (\<lambda>x. 0 \<le> x) (extract_numbers ''7. or 0.50 %'')"
  by (rule extract_numbers_total)

subsection \<open>Negation before a penalty keyword\<close>

lemma after_Cons: "after prev (c # u) = after (Some c) u"
  by (simp add: after_def)

lemma search_from_hits:
  "rmatch ic r (after prev u) v \<noteq> [] \<Longrightarrow> search_from ic r prev (u @ v) pos \<noteq> None"
proof (induction u arbitrary: prev pos)
  case Nil
  then show ?case by (cases "rmatch ic r prev v") (auto simp: after_def)
next
  case (Cons c u)
  from Cons.prems have "rmatch ic r (after (Some c) u) v \<noteq> []"
    by (simp add: after_Cons)
  from Cons.IH [OF this] show ?case
    by (cases "rmatch ic r prev (c # u @ v)") auto
qed

lemma is_word_n: "is_word CHR ''n''"
  by (simp add: is_word_def code_point_def)

lemma is_space_blank: "is_space CHR '' ''"
  by (simp add: is_space_def code_point_def)

lemma no_indicator_matches:
  assumes "u = [] \<or> \<not> is_word (last u)"
  shows "rmatch True (cat [WordB, Lit ''no'', sp]) (after None u) (''no '' @ v) \<noteq> []"
proof -
  from assms have wb: "word_boundary (after None u) (''no '' @ v)"
    by (auto simp: word_boundary_def after_def is_word_n)
  have "(''no '', v) \<in> set (rmatch True (cat [WordB, Lit ''no'', sp]) (after None u) (''no '' @ v))"
    unfolding cat.simps rmatch_iff
    using wb is_space_blank
    by (intro exI [of _ "[]"] exI [of _ "''no '' @ v"] exI [of _ "''no ''"] conjI
        exI [of _ "''no''"] exI [of _ "'' '' @ v"] exI [of _ "'' ''"]) simp_all
  then show ?thesis by (metis list.set(1) empty_iff)
qed

lemma negative_context_no:
  assumes "slice cl (pos - 50) pos = u @ ''no '' @ v" "u = [] \<or> \<not> is_word (last u)"
  shows "has_negative_context cl pos"
proof -
  from no_indicator_matches [OF assms(2)]
  have "re_search True (cat [WordB, Lit ''no'', sp]) (u @ ''no '' @ v) \<noteq> None"
    unfolding re_search_def by (rule search_from_hits)
  with assms(1) show ?thesis
    by (simp add: has_negative_context_def NEGATIVE_INDICATORS_def Let_def)
qed

lemma catalog_labels:
  assumes "p \<in> set (map snd RISK_PATTERNS)" "p \<noteq> penalty_clauses"
  shows "pattern_config.risk_type p \<noteq> ''Penalty Clauses''"
  using assms
  by (auto simp: RISK_PATTERNS_def high_interest_def hidden_fees_def auto_renewal_def
      one_sided_termination_def arbitration_clause_def variable_rate_def prepayment_penalty_def)

lemma find_Some_set: "find P xs = Some x \<Longrightarrow> x \<in> set xs \<and> P x"
  by (induction xs) (auto split: if_splits)

text \<open>
  C4, as stated: when the text \<open>no \<close> occurs in the 50 characters before the first match
  of a penalty keyword, a clause containing \<open>no penalty fee\<close> is not flagged with
  \<open>Penalty Clauses\<close>. The indicator is the pattern \<open>\bno\s+\<close>: in \<open>casino \<close> the letters
  \<open>no\<close> do not start at a word boundary, no indicator matches the window, and the clause
  is flagged.
\<close>

theorem negated_penalty_counterexample:
  "contains ''no penalty fee'' (lower ''Casino penalty, no penalty fee'') \<and>
   match_position (keywords_re penalty_clauses) (lower ''Casino penalty, no penalty fee'') = Some 7 \<and>
   contains ''no '' (slice (lower ''Casino penalty, no penalty fee'') (7 - 50) 7) \<and>
   map Clause.risk_type
     (fst (scan_patterns [] ''Casino penalty, no penalty fee'' (map snd RISK_PATTERNS) ([], {}))) =
   [''Penalty Clauses'']"
  by code_simp

text \<open>
  C4, amended. For every clause (one containing \<open>no penalty fee\<close> among them): if, in the
  50 characters before the first match of a penalty keyword, the word \<open>no\<close> followed by
  white space starts at a word boundary (at the start of the window or after a character
  that is not a word character), the pattern matcher returns no result for
  \<open>penalty_clauses\<close> and the clause is not flagged with \<open>Penalty Clauses\<close>.
\<close>

theorem negated_penalty_not_flagged:
  assumes "match_position (keywords_re penalty_clauses) (lower ct) = Some pos"
    and "slice (lower ct) (pos - 50) pos = u @ ''no '' @ v"
    and "u = [] \<or> \<not> is_word (last u)"
  shows "check_pattern (lower ct) ct penalty_clauses = None \<and>
         ''Penalty Clauses'' \<notin>
           Clause.risk_type ` set (fst (scan_patterns cid ct (map snd RISK_PATTERNS) ([], seen)))"
proof -
  from negative_context_no [OF assms(2,3)] assms(1)
  have none: "check_pattern (lower ct) ct penalty_clauses = None"
    by (simp add: check_pattern_def)
  have "''Penalty Clauses'' \<notin>
          Clause.risk_type ` set (fst (scan_patterns cid ct (map snd RISK_PATTERNS) ([], seen)))"
  proof (cases "find (new_hit ct seen) (map snd RISK_PATTERNS)")
    case None
    then show ?thesis by (simp add: scan_patterns_find)
  next
    case (Some p)
    from find_Some_set [OF Some] none have "p \<in> set (map snd RISK_PATTERNS)" "p \<noteq> penalty_clauses"
      by (auto simp: new_hit_def)
    from catalog_labels [OF this] Some show ?thesis
      by (simp add: scan_patterns_find flagged_def)
  qed
  with none show ?thesis by simp
qed


theorem negated_penalty_not_flagged_witness:
  "check_pattern (lower ''There is no penalty fee'') ''There is no penalty fee'' penalty_clauses = None \<and>
   ''Penalty Clauses'' \<notin> Clause.risk_type `
      set (fst (scan_patterns [] ''There is no penalty fee'' (map snd RISK_PATTERNS) ([], {})))"
proof -
  have 1: "match_position (keywords_re penalty_clauses) (lower ''There is no penalty fee'') = Some 12"
    by code_simp
  have 2: "slice (lower ''There is no penalty fee'') (12 - 50) 12 = ''there is '' @ ''no '' @ []"
    by code_simp
  have 3: "''there is '' = [] \<or> \<not> is_word (last ''there is '')"
    by code_simp
  from negated_penalty_not_flagged [OF 1 2 3] show ?thesis .
qed

subsection \<open>The threshold of the interest pattern\<close>






















subsection \<open>Paragraphs shorter than, and exactly of, the minimum length\<close>

lemma range2_Suc_Suc: "range2 (Suc (Suc n)) = 0 # map (\<lambda>i. Suc (Suc i)) (range2 n)"
proof -
  have "[0..<(Suc (Suc n) + 1) div 2] = 0 # map Suc [0..<(n + 1) div 2]"
    by (simp add: upt_conv_Cons map_Suc_upt del: upt_Suc)
  then show ?thesis by (simp add: range2_def comp_def)
qed

lemma sentence_at_shift:
  "sentence_at (a # b # ss) (Suc (Suc i)) = sentence_at ss i"
  by (simp add: sentence_at_def index_def)

lemma sentence_loop_shift:
  "sentence_loop ml (a # b # ss) (map (\<lambda>i. Suc (Suc i)) is) st = sentence_loop ml ss is st"
  by (induction "is" arbitrary: st) (simp_all add: sentence_at_shift split: sum.splits)

lemma sentence_loop_pairs:
  "sentence_loop ml (concat (map (\<lambda>(gap, g, m). [gap, g]) ms) @ [tail])
     (range2 (length (concat (map (\<lambda>(gap, g, m). [gap, g]) ms) @ [tail]))) st =
   Inr (run_items ml (map (\<lambda>(gap, g, m). gap @ g) ms @ [tail]) st)"
proof (induction ms arbitrary: st)
  case Nil
  show ?case by (simp add: range2_def run_items_def sentence_at_def index_def)
next
  case (Cons x ms)
  obtain gap g m where x: "x = (gap, g, m)" by (cases x)
  let ?ss = "concat (map (\<lambda>(gap, g, m). [gap, g]) ms) @ [tail]"
  have len: "length (concat (map (\<lambda>(gap, g, m). [gap, g]) (x # ms)) @ [tail]) = Suc (Suc (length ?ss))"
    by (simp add: x)
  have at0: "sentence_at (gap # g # ?ss) 0 = Inr (gap @ g)"
    by (simp add: sentence_at_def index_def)
  show ?case
    using Cons.IH [of "add_sentence ml (clean_text (gap @ g)) st"]
    unfolding len range2_Suc_Suc
    by (simp add: x at0 sentence_loop_shift run_items_def)
qed

lemma sentence_loop_split:
  "sentence_loop ml (re_split_group p s) (range2 (length (re_split_group p s))) st =
   Inr (run_items ml (items_of (finditer False p s)) st)"
proof (cases "finditer False p s")
  case (Pair ms tail)
  show ?thesis
    using sentence_loop_pairs [of ml ms tail st]
    by (simp add: re_split_group_def items_of_def Pair)
qed

lemma single_ws_Cons:
  "single_ws (a # s) \<longleftrightarrow> (s = [] \<or> \<not> (is_space a \<and> is_space (hd s))) \<and> single_ws s"
  by (cases s) auto

lemma single_ws_append: "single_ws (u @ v) \<Longrightarrow> single_ws u \<and> single_ws v"
proof (induction u rule: single_ws.induct)
  case 1
  then show ?case by simp
next
  case (2 a)
  then show ?case by (cases v) auto
next
  case (3 a b t)
  then show ?case by auto
qed

lemma only_blank_append: "only_blank (u @ v) \<longleftrightarrow> only_blank u \<and> only_blank v"
  by (auto simp: only_blank_def)

lemma greedy_hd: "\<exists>xs. greedy ok rest = (takeWhile ok rest, dropWhile ok rest) # xs"
  by (induction rest) auto

lemma rmatch_Plus_none:
  "takeWhile (cls_ok ic its) rest = [] \<Longrightarrow> rmatch ic (Plus its) prev rest = []"
  by (cases rest) (auto split: if_splits)

lemma rmatch_Plus_hd:
  assumes "takeWhile (cls_ok ic its) rest \<noteq> []"
  shows "\<exists>xs. rmatch ic (Plus its) prev rest =
           (takeWhile (cls_ok ic its) rest, dropWhile (cls_ok ic its) rest) # xs"
proof -
  from greedy_hd [of "cls_ok ic its" rest] obtain xs where
    "greedy (cls_ok ic its) rest =
       (takeWhile (cls_ok ic its) rest, dropWhile (cls_ok ic its) rest) # xs"
    by blast
  with assms show ?thesis by simp
qed

lemma gmatch_whole:
  "gmatch ic (whole r) prev rest = map (\<lambda>(m, left). (m, m, left)) (rmatch ic r prev rest)"
  by (simp add: whole_def after_def split_def)

lemma sub_from_Nil: "sub_from prev [] = []"
  by (simp add: sub_from_def finditer_from_Nil gmatch_whole)

lemma out_push:
  "(case push d res of (ms, tail) \<Rightarrow> concat (map (\<lambda>(gap, g, m). gap @ r) ms) @ tail) =
   d # (case res of (ms, tail) \<Rightarrow> concat (map (\<lambda>(gap, g, m). gap @ r) ms) @ tail)"
  by (induction d res rule: push.induct) auto

lemma sub_from_other:
  assumes "\<not> is_space d"
  shows "sub_from prev (d # t) = d # sub_from (Some d) t"
proof -
  from assms have "gmatch False (whole sp) prev (d # t) = []"
    by (simp add: gmatch_whole)
  from finditer_from_nomatch [OF this] show ?thesis
    by (simp add: sub_from_def out_push)
qed

lemma sub_from_space:
  assumes "is_space d"
  shows "\<exists>prev'. sub_from prev (d # t) = CHR '' '' # sub_from prev' (dropWhile is_space t)"
proof -
  let ?m = "takeWhile is_space (d # t)"
  from assms have ne: "?m \<noteq> []" by simp
  with rmatch_Plus_hd [of False "[Space]" "d # t" prev] obtain xs where
    "rmatch False sp prev (d # t) = (?m, dropWhile is_space (d # t)) # xs"
    by auto
  then have "gmatch False (whole sp) prev (d # t) =
      (?m, ?m, dropWhile is_space (d # t)) # map (\<lambda>(m, left). (m, m, left)) xs"
    by (simp only: gmatch_whole list.map prod.case)
  from finditer_from_match [OF this ne] assms
  have "sub_from prev (d # t) =
          CHR '' '' # sub_from (Some (last ?m)) (dropWhile is_space t)"
    by (simp add: sub_from_def split: prod.splits)
  then show ?thesis by blast
qed

lemma sub_from_props:
  "only_blank (sub_from prev rest) \<and> single_ws (sub_from prev rest) \<and>
   (rest \<noteq> [] \<longrightarrow> \<not> is_space (hd rest) \<longrightarrow>
      sub_from prev rest \<noteq> [] \<and> \<not> is_space (hd (sub_from prev rest)))"
proof (induction rest arbitrary: prev rule: length_induct)
  case (1 rest)
  show ?case
  proof (cases rest)
    case Nil
    then show ?thesis by (simp add: sub_from_Nil only_blank_def)
  next
    case (Cons d t)
    show ?thesis
    proof (cases "is_space d")
      case False
      from "1.IH" Cons have
        "only_blank (sub_from (Some d) t) \<and> single_ws (sub_from (Some d) t)"
        by simp
      with False Cons show ?thesis
        by (simp add: sub_from_other only_blank_def single_ws_Cons)
    next
      case True
      from sub_from_space [OF True] obtain prev' where
        eq: "sub_from prev (d # t) = CHR '' '' # sub_from prev' (dropWhile is_space t)"
        by blast
      let ?left = "dropWhile is_space t"
      have "length ?left < length rest"
        using Cons length_dropWhile_le [of is_space t] by simp
      with "1.IH" have ih: "only_blank (sub_from prev' ?left) \<and> single_ws (sub_from prev' ?left) \<and>
        (?left \<noteq> [] \<longrightarrow> \<not> is_space (hd ?left) \<longrightarrow>
           sub_from prev' ?left \<noteq> [] \<and> \<not> is_space (hd (sub_from prev' ?left)))"
        by blast
      have "sub_from prev' ?left = [] \<or> \<not> is_space (hd (sub_from prev' ?left))"
      proof (cases "?left = []")
        case True
        have "sub_from prev' [] = []" by (rule sub_from_Nil)
        with True show ?thesis by (simp only:) simp
      next
        case False
        with hd_dropWhile [of is_space t] have "\<not> is_space (hd ?left)" by blast
        with False ih show ?thesis by blast
      qed
      with ih True Cons eq show ?thesis
        by (simp add: only_blank_def single_ws_Cons)
    qed
  qed
qed

lemma sub_from_id:
  "only_blank rest \<Longrightarrow> single_ws rest \<Longrightarrow> sub_from prev rest = rest"
proof (induction rest arbitrary: prev)
  case Nil
  show ?case by (simp add: sub_from_Nil)
next
  case (Cons d t)
  from Cons.prems have t: "only_blank t" "single_ws t"
    by (simp_all add: only_blank_def single_ws_Cons)
  show ?case
  proof (cases "is_space d")
    case False
    with Cons.IH [OF t] show ?thesis by (simp add: sub_from_other)
  next
    case True
    with Cons.prems have d: "d = CHR '' ''" and nt: "t = [] \<or> \<not> is_space (hd t)"
      by (auto simp: only_blank_def single_ws_Cons)
    from nt have "dropWhile is_space t = t" by (cases t) auto
    with sub_from_space [OF True, of prev t] Cons.IH [OF t] d show ?thesis
      by auto
  qed
qed

lemma dropWhile_keep: "xs = [] \<or> \<not> P (hd xs) \<Longrightarrow> dropWhile P xs = xs"
  by (cases xs) auto

lemma last_dropWhile: "dropWhile P xs \<noteq> [] \<Longrightarrow> last (dropWhile P xs) = last xs"
proof -
  assume ne: "dropWhile P xs \<noteq> []"
  have "xs = takeWhile P xs @ dropWhile P xs" by simp
  then have "last xs = last (takeWhile P xs @ dropWhile P xs)" by simp
  also from ne have "\<dots> = last (dropWhile P xs)" by (rule last_appendR)
  finally show ?thesis by simp
qed

lemma strip_id: "edges_ok y \<Longrightarrow> strip y = y"
proof (cases "y = []")
  case True
  then show ?thesis by (simp add: strip_def)
next
  case False
  assume "edges_ok y"
  with False have h: "\<not> is_space (hd y)" and l: "\<not> is_space (last y)"
    by (simp_all add: edges_ok_def)
  from h False have 1: "dropWhile is_space y = y" by (simp add: dropWhile_keep)
  from l False have "\<not> is_space (hd (rev y))" by (simp add: hd_rev)
  then have 2: "dropWhile is_space (rev y) = rev y" by (simp add: dropWhile_keep)
  show ?thesis by (simp add: strip_def 1 2)
qed

lemma strip_blank:
  assumes "y \<noteq> []" "edges_ok y"
  shows "strip (y @ '' '') = y"
proof -
  from assms have h: "\<not> is_space (hd y)" and l: "\<not> is_space (last y)"
    by (simp_all add: edges_ok_def)
  from h assms(1) have 1: "dropWhile is_space (y @ '' '') = y @ '' ''"
    by (intro dropWhile_keep) simp
  from l assms(1) have "\<not> is_space (hd (rev y))" by (simp add: hd_rev)
  then have 2: "dropWhile is_space (rev y) = rev y" by (simp add: dropWhile_keep)
  show ?thesis by (simp add: strip_def 1 2 is_space_blank)
qed

lemma strip_factor: "\<exists>u v. y = u @ strip y @ v"
proof -
  let ?z = "dropWhile is_space y"
  have "rev ?z = takeWhile is_space (rev ?z) @ dropWhile is_space (rev ?z)" by simp
  then have "?z = rev (dropWhile is_space (rev ?z)) @ rev (takeWhile is_space (rev ?z))"
    by (metis rev_append rev_rev_ident)
  then have "y = takeWhile is_space y @ strip y @ rev (takeWhile is_space (rev ?z))"
    unfolding strip_def by (metis takeWhile_dropWhile_id)
  then show ?thesis by blast
qed

lemma strip_edges: "edges_ok (strip y)"
proof (cases "strip y = []")
  case True
  then show ?thesis by (simp add: edges_ok_def)
next
  case False
  let ?z = "dropWhile is_space y"
  let ?w = "dropWhile is_space (rev ?z)"
  from False have w: "?w \<noteq> []" by (simp add: strip_def)
  have z: "?z \<noteq> []"
  proof
    assume e: "?z = []"
    from w show False unfolding e by simp
  qed
  from w have "\<not> is_space (hd ?w)" by (rule hd_dropWhile)
  with w have l: "\<not> is_space (last (strip y))" by (simp add: strip_def last_rev)
  from w have "last ?w = last (rev ?z)" by (rule last_dropWhile)
  with z have "last ?w = hd ?z" by (simp add: last_rev)
  moreover from z have "\<not> is_space (hd ?z)" by (rule hd_dropWhile)
  ultimately have "\<not> is_space (hd (strip y))" using w by (simp add: strip_def hd_rev)
  with l show ?thesis by (simp add: edges_ok_def)
qed

lemma strip_tidy:
  assumes "only_blank y" "single_ws y"
  shows "tidy (strip y)"
proof -
  from strip_factor obtain u v where y: "y = u @ strip y @ v" by blast
  from assms(1) y have "only_blank (strip y)" by (metis only_blank_append)
  moreover from assms(2) y have "single_ws (strip y)" by (metis single_ws_append)
  ultimately show ?thesis by (simp add: tidy_def strip_edges)
qed

lemma re_sub_sub_from: "re_sub sp '' '' s = sub_from None s"
  by (simp add: re_sub_def sub_from_def finditer_def)

lemma clean_text_tidy: "tidy (clean_text x)"
proof (cases "x = []")
  case True
  then show ?thesis by (simp add: clean_text_def tidy_def only_blank_def edges_ok_def)
next
  case False
  with sub_from_props [of None x] strip_tidy [of "sub_from None x"] show ?thesis
    by (simp add: clean_text_def re_sub_sub_from)
qed

lemma clean_text_strip: "only_blank y \<Longrightarrow> single_ws y \<Longrightarrow> clean_text y = strip y"
  by (cases "y = []") (simp_all add: clean_text_def re_sub_sub_from sub_from_id strip_def)

lemma clean_text_id: "tidy y \<Longrightarrow> clean_text y = y"
  by (simp add: tidy_def clean_text_strip strip_id)

lemma punct_not_space:
  "c = CHR ''.'' \<or> c = CHR ''!'' \<or> c = CHR ''?'' \<Longrightarrow> \<not> is_space c"
  by (auto simp: is_space_def code_point_def)

lemma sentence_end_Nil: "gmatch False sentence_end prev [] = []"
  by (simp add: sentence_end_def)

lemma sentence_end_match:
  assumes "(g, m, left) \<in> set (gmatch False sentence_end prev rest)"
  shows "g = m \<and> (\<exists>p w. m = p @ w \<and> rest = p @ w @ left \<and> p \<noteq> [] \<and>
           (\<forall>c \<in> set p. c = CHR ''.'' \<or> c = CHR ''!'' \<or> c = CHR ''?'') \<and>
           ((w \<noteq> [] \<and> (\<forall>c \<in> set w. is_space c)) \<or> (w = [] \<and> at_end left)))"
  using assms
  unfolding sentence_end_def gmatch_iff rmatch_iff lit_match_exact cls_ok_Space
  by auto

lemma prefix_first_push: "prefix_first pg (push d res) = prefix_first (pg @ [d]) res"
  by (induction d res rule: push.induct) auto

lemma prefix_first_Nil: "prefix_first [] res = res"
  by (induction "[] :: string" res rule: prefix_first.induct) auto

lemma run_items_Cons:
  "run_items ml (x # xs) st = run_items ml xs (add_sentence ml (clean_text x) st)"
  by (simp add: run_items_def)

lemma run_items_Nil: "run_items ml [] st = st"
  by (simp add: run_items_def)

lemma add_sentence_empty: "add_sentence ml [] st = st"
  by (cases st) (simp add: add_sentence_def)

lemma clean_text_Nil: "clean_text [] = []"
  by (simp add: clean_text_def)

lemma add_last_sentence:
  assumes "sentence \<noteq> []" "int (length (join_clause cur sentence)) = ml" "int (length cur) < ml"
  shows "add_sentence ml sentence (clauses, cur) = (clauses @ [join_clause cur sentence], [])"
proof (cases "cur = []")
  case True
  with assms show ?thesis by (simp add: add_sentence_def join_clause_def)
next
  case False
  with assms have "\<not> ml \<le> int (length sentence)"
    by (simp add: join_clause_def)
  with False assms show ?thesis
    by (simp add: add_sentence_def join_clause_def Let_def)
qed

lemma add_mid_sentence:
  assumes "sentence \<noteq> []" "int (length (join_clause cur sentence)) < ml"
  shows "add_sentence ml sentence (clauses, cur) = (clauses, join_clause cur sentence)"
proof -
  from assms have "\<not> ml \<le> int (length sentence)"
    by (auto simp: join_clause_def split: if_splits)
  with assms show ?thesis
    by (auto simp: add_sentence_def join_clause_def Let_def split: if_splits)
qed

lemma newline_space: "is_space (CHR 0x0A)" "CHR 0x0A \<noteq> CHR '' ''"
  by (simp_all add: is_space_def code_point_def)

lemma tidy_at_end:
  assumes "tidy (q @ left)" "at_end left"
  shows "left = []"
proof (rule ccontr)
  assume "left \<noteq> []"
  with assms(2) have "left = [CHR 0x0A]" by (simp add: at_end_def)
  with assms(1) have "is_space (CHR 0x0A) \<longrightarrow> CHR 0x0A = CHR '' ''"
    by (simp add: tidy_def only_blank_def)
  with newline_space show False by blast
qed

lemma tidy_after_blank_run:
  assumes t: "tidy (q @ w @ left)" and q: "q \<noteq> []" "\<not> is_space (last q)"
    and w: "w \<noteq> []" "\<forall>c \<in> set w. is_space c"
  shows "w = '' '' \<and> left \<noteq> [] \<and> tidy left"
proof -
  from t have ob: "only_blank (q @ w @ left)" and sw: "single_ws (q @ w @ left)"
    and eo: "edges_ok (q @ w @ left)"
    by (simp_all add: tidy_def)
  from w obtain a w' where wa: "w = a # w'" by (cases w) auto
  with w have a: "is_space a" by simp
  from sw have sw2: "single_ws (w @ left)" by (metis single_ws_append)
  have "w' = []"
  proof (rule ccontr)
    assume "w' \<noteq> []"
    then obtain b w'' where "w' = b # w''" by (cases w') auto
    with wa w sw2 show False by simp
  qed
  with wa have w1: "w = [a]" by simp
  from ob a w1 have ab: "a = CHR '' ''" by (simp add: only_blank_def)
  have ne: "left \<noteq> []"
  proof
    assume "left = []"
    with w1 eo q a show False by (simp add: edges_ok_def)
  qed
  from sw2 w1 a ne have hl: "\<not> is_space (hd left)" by (simp add: single_ws_Cons)
  from ob have ob3: "only_blank left" by (simp add: only_blank_append)
  from sw2 have sw3: "single_ws left" by (metis single_ws_append)
  from eo ne have "\<not> is_space (last left)" by (simp add: edges_ok_def)
  with hl ob3 sw3 have "tidy left" by (simp add: tidy_def edges_ok_def)
  with w1 ab ne show ?thesis by simp
qed

lemma paragraph_invariant:
  assumes "tidy (pg @ rest)" "int (length (join_clause cur (pg @ rest))) = ml"
    "int (length cur) < ml"
  shows "finish ml (run_items ml
           (items_of (prefix_first pg (finditer_from False sentence_end prev rest)))
           (clauses, cur)) =
         clauses @ [join_clause cur (pg @ rest)]"
  using assms
proof (induction rest arbitrary: pg prev cur rule: length_induct)
  case (1 rest)
  note tidy = "1.prems"(1) and len = "1.prems"(2) and short = "1.prems"(3)
  show ?case
  proof (cases "gmatch False sentence_end prev rest")
    case Nil
    show ?thesis
    proof (cases rest)
      case Nil
      have pg: "pg \<noteq> []"
      proof
        assume "pg = []"
        with len short Nil show False by (simp add: join_clause_def split: if_splits)
      qed
      from tidy Nil have ct: "clean_text pg = pg" by (simp add: clean_text_id)
      from add_last_sentence [OF pg, of cur ml clauses] len short Nil
      have "add_sentence ml pg (clauses, cur) = (clauses @ [join_clause cur pg], [])"
        by simp
      with Nil ct show ?thesis
        by (simp add: finditer_from_Nil sentence_end_Nil items_of_def run_items_Cons
            run_items_Nil finish_def)
    next
      case (Cons d t)
      from \<open>gmatch False sentence_end prev rest = []\<close> Cons
      have "gmatch False sentence_end prev (d # t) = []" by simp
      from finditer_from_nomatch [OF this]
      have eq: "prefix_first pg (finditer_from False sentence_end prev (d # t)) =
                prefix_first (pg @ [d]) (finditer_from False sentence_end (Some d) t)"
        by (simp add: prefix_first_push)
      from "1.IH" Cons have ih:
        "\<And>pg prev cur. tidy (pg @ t) \<Longrightarrow> int (length (join_clause cur (pg @ t))) = ml \<Longrightarrow>
           int (length cur) < ml \<Longrightarrow>
           finish ml (run_items ml
             (items_of (prefix_first pg (finditer_from False sentence_end prev t)))
             (clauses, cur)) = clauses @ [join_clause cur (pg @ t)]"
        by simp
      from ih [of "pg @ [d]" cur "Some d"] tidy len short Cons show ?thesis
        by (simp add: eq)
    qed
  next
    case (Cons x xs)
    obtain g m left where x: "x = (g, m, left)" by (cases x)
    with Cons have mem: "(g, m, left) \<in> set (gmatch False sentence_end prev rest)" by simp
    from sentence_end_match [OF mem] obtain p w where
      g: "g = m" and m: "m = p @ w" and rest: "rest = p @ w @ left" and p: "p \<noteq> []" and
      punct: "\<forall>c \<in> set p. c = CHR ''.'' \<or> c = CHR ''!'' \<or> c = CHR ''?''" and
      w: "(w \<noteq> [] \<and> (\<forall>c \<in> set w. is_space c)) \<or> (w = [] \<and> at_end left)"
      by blast
    let ?q = "pg @ p"
    from p have q: "?q \<noteq> []" by simp
    from p punct have lastq: "\<not> is_space (last ?q)"
      using punct_not_space [of "last p"] by simp
    from tidy rest have tq: "tidy (?q @ w @ left)" by simp
    then have hdq: "\<not> is_space (hd ?q)"
      using q by (simp add: tidy_def edges_ok_def hd_append split: if_splits)
    from q hdq lastq have eq: "edges_ok ?q" by (simp add: edges_ok_def)
    from p m have mne: "m \<noteq> []" by simp
    obtain ms tail where rec: "finditer_from False sentence_end (Some (last m)) left = (ms, tail)"
      by (cases "finditer_from False sentence_end (Some (last m)) left")
    from finditer_from_match [OF Cons [unfolded x] mne] rec g
    have items: "items_of (prefix_first pg (finditer_from False sentence_end prev rest)) =
                 (pg @ m) # items_of (ms, tail)"
      by (simp add: items_of_def)
    from w show ?thesis
    proof
      assume "w \<noteq> [] \<and> (\<forall>c \<in> set w. is_space c)"
      with tidy_after_blank_run [OF tq q lastq] have
        w1: "w = '' ''" and left: "left \<noteq> []" and tl: "tidy left"
        by simp_all
      from tq w1 have ob: "only_blank ((?q @ '' '') @ left)"
        and sw: "single_ws ((?q @ '' '') @ left)"
        by (simp_all add: tidy_def)
      from ob have ob': "only_blank (?q @ '' '')" by (simp only: only_blank_append)
      from single_ws_append [OF sw] have sw': "single_ws (?q @ '' '')" by simp
      from ob' sw' have "clean_text (?q @ '' '') = strip (?q @ '' '')" by (rule clean_text_strip)
      with strip_blank [OF q eq] have ct: "clean_text (pg @ m) = ?q" by (simp add: m w1)
      have jn: "join_clause cur (pg @ rest) = join_clause cur ?q @ '' '' @ left"
        using p by (simp add: join_clause_def rest w1)
      with len have lt: "int (length (join_clause cur ?q)) < ml" by simp
      from add_mid_sentence [OF q lt]
      have step: "add_sentence ml ?q (clauses, cur) = (clauses, join_clause cur ?q)" .
      have jne: "join_clause cur ?q \<noteq> []" using p by (simp add: join_clause_def)
      have "length left < length rest" using rest p by simp
      with "1.IH" have ih:
        "\<And>pg prev cur. tidy (pg @ left) \<Longrightarrow> int (length (join_clause cur (pg @ left))) = ml \<Longrightarrow>
           int (length cur) < ml \<Longrightarrow>
           finish ml (run_items ml
             (items_of (prefix_first pg (finditer_from False sentence_end prev left)))
             (clauses, cur)) = clauses @ [join_clause cur (pg @ left)]"
        by blast
      have "join_clause (join_clause cur ?q) ([] @ left) = join_clause cur (pg @ rest)"
        using jne left by (simp add: jn) (simp add: join_clause_def)
      with ih [of "[]" "join_clause cur ?q" "Some (last m)"] tl len lt rec
      have "finish ml (run_items ml (items_of (ms, tail)) (clauses, join_clause cur ?q)) =
            clauses @ [join_clause cur (pg @ rest)]"
        by (simp add: prefix_first_Nil)
      with items ct step show ?thesis by (simp add: run_items_Cons)
    next
      assume "w = [] \<and> at_end left"
      then have w0: "w = []" and "at_end left" by simp_all
      with tidy_at_end [of ?q left] tq have left: "left = []" by simp
      from tidy rest w0 left have ct: "clean_text (pg @ m) = ?q"
        by (simp add: clean_text_id m)
      from len rest w0 left have "int (length (join_clause cur ?q)) = ml" by simp
      from add_last_sentence [OF q this short]
      have step: "add_sentence ml ?q (clauses, cur) = (clauses @ [join_clause cur ?q], [])" .
      from rec left have "ms = []" "tail = []"
        by (simp_all add: finditer_from_Nil sentence_end_Nil)
      with items ct step rest w0 left show ?thesis
        by (simp add: run_items_Cons run_items_Nil items_of_def clean_text_Nil
            add_sentence_empty finish_def)
    qed
  qed
qed

lemma add_paragraph_finish:
  "int (length (clean_text paragraph)) < ml \<or>
   add_paragraph ml paragraph clauses =
     Inr (finish ml (run_items ml
            (items_of (finditer False sentence_end (clean_text paragraph))) (clauses, [])))"
proof (cases "int (length (clean_text paragraph)) < ml")
  case True
  then show ?thesis by simp
next
  case False
  obtain c cur where r: "run_items ml
      (items_of (finditer False sentence_end (clean_text paragraph))) (clauses, []) = (c, cur)"
    by (cases "run_items ml
      (items_of (finditer False sentence_end (clean_text paragraph))) (clauses, [])")
  with False show ?thesis
    by (simp add: add_paragraph_def Let_def sentence_loop_split finish_def)
qed

lemma add_paragraph_short:
  "int (length (clean_text paragraph)) < ml \<Longrightarrow> add_paragraph ml paragraph clauses = Inr clauses"
  by (simp add: add_paragraph_def Let_def)

lemma add_paragraph_exact:
  assumes "int (length (clean_text paragraph)) = ml" "1 \<le> ml"
  shows "add_paragraph ml paragraph clauses = Inr (clauses @ [clean_text paragraph])"
proof -
  let ?P = "clean_text paragraph"
  have "finish ml (run_items ml
          (items_of (prefix_first [] (finditer_from False sentence_end None ?P)))
          (clauses, [])) = clauses @ [join_clause [] ([] @ ?P)]"
    using assms clean_text_tidy [of "paragraph"]
    by (intro paragraph_invariant) (simp_all add: join_clause_def)
  with add_paragraph_finish [of "paragraph" ml clauses] assms show ?thesis
    by (simp add: prefix_first_Nil finditer_def join_clause_def)
qed

lemma add_sentence_extends:
  "\<exists>new. fst (add_sentence ml s (clauses, cur)) = clauses @ new"
  by (simp add: add_sentence_def Let_def)

lemma run_items_extends:
  "\<exists>new. fst (run_items ml items (clauses, cur)) = clauses @ new"
proof (induction items arbitrary: clauses cur)
  case Nil
  show ?case by (simp add: run_items_Nil)
next
  case (Cons x xs)
  obtain c' cur' where st: "add_sentence ml (clean_text x) (clauses, cur) = (c', cur')"
    by (cases "add_sentence ml (clean_text x) (clauses, cur)")
  with add_sentence_extends [of ml "clean_text x" clauses cur] obtain n1 where
    "c' = clauses @ n1" by auto
  with Cons.IH [of c' cur'] st show ?case
    by (auto simp: run_items_Cons)
qed

lemma add_paragraph_extends:
  "\<exists>new. add_paragraph ml paragraph clauses = Inr (clauses @ new)"
proof (cases "int (length (clean_text paragraph)) < ml")
  case True
  then show ?thesis by (simp add: add_paragraph_short)
next
  case False
  obtain c cur where r: "run_items ml
      (items_of (finditer False sentence_end (clean_text paragraph))) (clauses, []) = (c, cur)"
    by (cases "run_items ml
      (items_of (finditer False sentence_end (clean_text paragraph))) (clauses, [])")
  with run_items_extends [of ml "items_of (finditer False sentence_end (clean_text paragraph))"
      clauses "[]"]
  obtain n where "c = clauses @ n" by auto
  with False r add_paragraph_finish [of "paragraph" ml clauses] show ?thesis
    by (auto simp: finish_def)
qed

lemma paragraph_loop_extends:
  "\<exists>new. paragraph_loop ml ps clauses = Inr (clauses @ new)"
proof (induction ps arbitrary: clauses)
  case Nil
  show ?case by simp
next
  case (Cons p ps)
  from add_paragraph_extends [of ml p clauses] obtain n1 where
    1: "add_paragraph ml p clauses = Inr (clauses @ n1)" by blast
  from Cons.IH [of "clauses @ n1"] obtain n2 where
    "paragraph_loop ml ps (clauses @ n1) = Inr (clauses @ n1 @ n2)" by auto
  with 1 show ?case by simp
qed

lemma paragraph_loop_short:
  "\<forall>p \<in> set ps. int (length (clean_text p)) < ml \<Longrightarrow> paragraph_loop ml ps clauses = Inr clauses"
  by (induction ps) (simp_all add: add_paragraph_short)

lemma paragraph_loop_exact:
  assumes "paragraph \<in> set ps" "int (length (clean_text paragraph)) = ml" "1 \<le> ml"
  shows "\<exists>cs. paragraph_loop ml ps clauses = Inr cs \<and> clean_text paragraph \<in> set cs"
  using assms(1)
proof (induction ps arbitrary: clauses)
  case Nil
  then show ?case by simp
next
  case (Cons p ps)
  from add_paragraph_extends [of ml p clauses] obtain n1 where
    1: "add_paragraph ml p clauses = Inr (clauses @ n1)" by blast
  show ?case
  proof (cases "p = paragraph")
    case True
    with add_paragraph_exact [OF assms(2,3), of clauses] 1
    have n1: "clauses @ n1 = clauses @ [clean_text paragraph]" by simp
    from paragraph_loop_extends [of ml ps "clauses @ n1"] obtain n2 where
      "paragraph_loop ml ps (clauses @ n1) = Inr ((clauses @ n1) @ n2)" by blast
    with 1 n1 show ?thesis by simp
  next
    case False
    with Cons.prems have "paragraph \<in> set ps" by simp
    from Cons.IH [OF this, of "clauses @ n1"] 1 show ?thesis by simp
  qed
qed

text \<open>
  C6, as stated: for every \<open>min_length\<close>, a paragraph of exactly \<open>min_length\<close> characters
  after normalization produces at least one clause. For \<open>min_length = 0\<close> a paragraph of
  white space has the normalized length 0 and produces no clause.
\<close>

theorem segmenter_min_length_counterexample:
  "int (length (clean_text '' '')) = 0 \<and>
   add_paragraph 0 '' '' [] = Inr [] \<and>
   split_into_clauses '' '' 0 = Inr []"
  by code_simp

text \<open>
  C6, amended. A paragraph whose normalized length is shorter than \<open>min_length\<close> produces
  no clause, and for every \<open>min_length\<close> of at least 1 a paragraph of exactly
  \<open>min_length\<close> characters after normalization produces exactly one clause, the
  normalized paragraph, which \<open>split_into_clauses\<close> returns among its clauses.
\<close>

theorem segmenter_min_length:
  "(int (length (clean_text paragraph)) < ml \<longrightarrow>
      add_paragraph ml paragraph clauses = Inr clauses) \<and>
   (int (length (clean_text paragraph)) = ml \<longrightarrow> 1 \<le> ml \<longrightarrow>
      add_paragraph ml paragraph clauses = Inr (clauses @ [clean_text paragraph])) \<and>
   ((\<forall>p \<in> set (re_split paragraph_break txt). int (length (clean_text p)) < ml) \<longrightarrow>
      split_into_clauses txt ml = Inr []) \<and>
   (paragraph \<in> set (re_split paragraph_break txt) \<longrightarrow>
      int (length (clean_text paragraph)) = ml \<longrightarrow> 1 \<le> ml \<longrightarrow>
      (\<exists>cs. split_into_clauses txt ml = Inr cs \<and> clean_text paragraph \<in> set cs))"
proof (intro conjI impI)
  assume "int (length (clean_text paragraph)) < ml"
  then show "add_paragraph ml paragraph clauses = Inr clauses"
    by (rule add_paragraph_short)
next
  assume "int (length (clean_text paragraph)) = ml" "1 \<le> ml"
  then show "add_paragraph ml paragraph clauses = Inr (clauses @ [clean_text paragraph])"
    by (rule add_paragraph_exact)
next
  assume "\<forall>p \<in> set (re_split paragraph_break txt). int (length (clean_text p)) < ml"
  from paragraph_loop_short [OF this, of "[]"]
  show "split_into_clauses txt ml = Inr []"
    by (simp add: split_into_clauses_def)
next
  assume mem: "paragraph \<in> set (re_split paragraph_break txt)"
    and len: "int (length (clean_text paragraph)) = ml" and pos: "1 \<le> ml"
  from paragraph_loop_exact [OF mem len pos, of "[]"] obtain cs where
    cs: "paragraph_loop ml (re_split paragraph_break txt) [] = Inr cs"
      "clean_text paragraph \<in> set cs"
    by blast
  have "txt \<noteq> []"
  proof
    assume "txt = []"
    with mem have "paragraph = []"
      by (simp add: re_split_def finditer_def finditer_from_Nil gmatch_whole paragraph_break_def)
    with len pos show False by (simp add: clean_text_def)
  qed
  with cs len show "\<exists>cs. split_into_clauses txt ml = Inr cs \<and> clean_text paragraph \<in> set cs"
    by (simp add: split_into_clauses_def)
qed

theorem segmenter_min_length_witness:
  "add_paragraph 5 ''Hi.'' [] = Inr [] \<and>
   add_paragraph 11 ''Aaaa.  Bbbb.'' [] = Inr [clean_text ''Aaaa.  Bbbb.''] \<and>
   split_into_clauses ''Hi.'' 5 = Inr [] \<and>
   (\<exists>cs. split_into_clauses ''Aaaa.  Bbbb.'' 11 = Inr cs \<and> clean_text ''Aaaa.  Bbbb.'' \<in> set cs)"
proof -
  have s: "int (length (clean_text ''Hi.'')) < 5"
    by code_simp
  have e: "int (length (clean_text ''Aaaa.  Bbbb.'')) = 11"
    by code_simp
  have one: "(1::int) \<le> 11" by simp
  have ps: "re_split paragraph_break ''Hi.'' = [''Hi.'']"
    by code_simp
  have pe: "re_split paragraph_break ''Aaaa.  Bbbb.'' = [''Aaaa.  Bbbb.'']"
    by code_simp
  from segmenter_min_length [of "''Hi.''" 5 "[]" "''Hi.''"] s ps
  have 1: "add_paragraph 5 ''Hi.'' [] = Inr []" and 3: "split_into_clauses ''Hi.'' 5 = Inr []"
    by simp_all
  from segmenter_min_length [of "''Aaaa.  Bbbb.''" 11 "[]" "''Aaaa.  Bbbb.''"] e one pe
  have 2: "add_paragraph 11 ''Aaaa.  Bbbb.'' [] = Inr [clean_text ''Aaaa.  Bbbb.'']"
    and 4: "\<exists>cs. split_into_clauses ''Aaaa.  Bbbb.'' 11 = Inr cs \<and>
              clean_text ''Aaaa.  Bbbb.'' \<in> set cs"
    by simp_all
  from 1 2 3 4 show ?thesis by blast
qed

end
